theory Spec2Isabelle
  imports Main "HOL-Library.Word"
begin

section \<open>The bit stream writer of bit-stream.js\<close>

text \<open>
  A shallow embedding of the class \<open>BitStream\<close> of \<^verbatim>\<open>src/bit-stream.js\<close>. A JavaScript
  string is a \<open>string\<close>, one \<open>char\<close> per code unit; code units above 255 are not
  represented (the methods treat them as they treat every character other than 0 and
  1). A byte of the Node buffer is an \<open>8 word\<close>, and the numbers the methods receive
  (\<open>value\<close>, \<open>bitLength\<close>, \<open>byteLength\<close>) are integers. The events the stream emits downstream are recorded, in order, in the
  field \<open>emitted\<close>. A method returns an \<open>outcome\<close>: the state it leaves when it returns, or
  the error it throws together with the state at the moment of the throw.
\<close>

subsection \<open>Data\<close>

type_synonym u8 = "8 word"

definition BUFFER_SIZE :: nat where
  "BUFFER_SIZE = 1024"

datatype event = Data "u8 list" | Finish

text \<open>
  The errors of the JavaScript: the \<open>Error\<close> of line 114, the two \<open>RangeError\<close>s of
  lines 90 and 94, the \<open>RangeError\<close> of line 144, the \<open>TypeError\<close> of a property read on
  \<open>null\<close> or \<open>undefined\<close>, the \<open>RangeError\<close> of \<open>String.prototype.repeat\<close> on a negative
  count, and the two errors of Node's buffer writers (index out of range, value out of
  bounds).
\<close>

datatype error =
    InvalidFormat string
  | MinBitLength
  | MaxBitLength
  | ExceededBufferSize
  | TypeError
  | InvalidCount
  | IndexOutOfRange
  | ValueOutOfBounds

text \<open>\<open>buffer\<close> is \<open>None\<close> once \<open>end\<close> has run \<^verbatim>\<open>delete this.buffer\<close>.\<close>

record BitStream =
  bits :: string
  buffer :: "u8 list option"
  offset :: nat
  emitted :: "event list"

datatype outcome = Returned BitStream | Threw error BitStream

fun state_of :: "outcome \<Rightarrow> BitStream" where
  "state_of (Returned s) = s"
| "state_of (Threw e s) = s"

text \<open>Sequencing of two statements: a throw in the first skips the second.\<close>

fun and_then :: "outcome \<Rightarrow> (BitStream \<Rightarrow> outcome) \<Rightarrow> outcome" where
  "and_then (Returned s) f = f s"
| "and_then (Threw e s) f = Threw e s"

text \<open>
  The constructor, lines 21 to 29. The flags \<open>readable\<close> and \<open>writable\<close> are read by no
  method and are left out.
\<close>

definition new_BitStream :: BitStream where
  "new_BitStream =
     \<lparr>bits = [], buffer = Some (replicate BUFFER_SIZE 0), offset = 0, emitted = []\<rparr>"

subsection \<open>The JavaScript built-ins the methods call\<close>

text \<open>\<^verbatim>\<open>/[^0-1]/.test(value)\<close>: some character is neither 0 nor 1.\<close>

definition is_bit_char :: "char \<Rightarrow> bool" where
  "is_bit_char c = (c = CHR ''0'' \<or> c = CHR ''1'')"

definition not_bits :: "string \<Rightarrow> bool" where
  "not_bits value = list_ex (\<lambda>c. \<not> is_bit_char c) value"

text \<open>
  \<^verbatim>\<open>str.match(/.{1,8}/g)\<close>: the successive matches from left to right, each the longest
  run of at most 8 characters that are not line terminators; a position where no
  character matches is skipped. The result is \<open>null\<close> (here \<open>None\<close>) when nothing matches.
\<close>

definition line_terminator :: "char \<Rightarrow> bool" where
  "line_terminator c = (c = CHR 0x0A \<or> c = CHR 0x0D)"

function match_all :: "string \<Rightarrow> string list" where
  "match_all str =
     (if str = [] then []
      else let m = takeWhile (\<lambda>c. \<not> line_terminator c) (take 8 str)
           in if m = [] then match_all (tl str)
              else m # match_all (drop (length m) str))"
  by pat_completeness auto
termination
  by (relation "measure length") (auto simp: Let_def)

declare match_all.simps [simp del]

definition js_match :: "string \<Rightarrow> string list option" where
  "js_match str = (case match_all str of [] \<Rightarrow> None | m # ms \<Rightarrow> Some (m # ms))"

text \<open>
  \<^verbatim>\<open>parseInt(byte, 2)\<close> on a string of binary digits, most significant first. The guard
  of line 113 and the digits-only content of \<open>this.bits\<close> (lemma \<open>pending_ok_preserved\<close>)
  let no other string reach it.
\<close>

definition digit_val :: "char \<Rightarrow> nat" where
  "digit_val c = (if c = CHR ''1'' then 1 else 0)"

definition parseInt2 :: "string \<Rightarrow> nat" where
  "parseInt2 byte = foldl (\<lambda>acc c. 2 * acc + digit_val c) 0 byte"

text \<open>
  \<^verbatim>\<open>buf.writeUInt8(value, offset)\<close> of Node 6: the value is checked against 0..255, then
  the index against the length of the buffer, then the byte is stored; the result is
  the buffer after the store and the returned index \<open>offset + 1\<close>.
\<close>

definition buf_writeUInt8 :: "u8 list \<Rightarrow> nat \<Rightarrow> nat \<Rightarrow> error + (u8 list \<times> nat)" where
  "buf_writeUInt8 b v off =
     (if v > 255 then Inl ValueOutOfBounds
      else if off + 1 > length b then Inl IndexOutOfRange
      else Inr (b[off := of_nat v], off + 1))"

text \<open>\<^verbatim>\<open>n.toString(2)\<close> for a non-negative integer: no leading zeros, \<open>"0"\<close> for 0.\<close>

definition bit_char :: "nat \<Rightarrow> char" where
  "bit_char d = (if d = 0 then CHR ''0'' else CHR ''1'')"

fun toString2 :: "nat \<Rightarrow> string" where
  "toString2 n = (if n < 2 then [bit_char n] else toString2 (n div 2) @ [bit_char (n mod 2)])"

declare toString2.simps [simp del]

text \<open>\<^verbatim>\<open>value >>> 0\<close> on an integer: its residue modulo \<open>2 ^ 32\<close>.\<close>

definition to_uint32 :: "int \<Rightarrow> nat" where
  "to_uint32 v = nat (v mod 2 ^ 32)"

text \<open>\<^verbatim>\<open>c.repeat(count)\<close>: a \<open>RangeError\<close> on a negative count.\<close>

definition js_repeat :: "char \<Rightarrow> int \<Rightarrow> error + string" where
  "js_repeat c count = (if count < 0 then Inl InvalidCount else Inr (replicate (nat count) c))"

text \<open>
  \<^verbatim>\<open>str.substr(start)\<close>: a negative start counts from the end, stopping at the
  beginning of the string; a start that is not negative (also \<open>-0\<close>) counts from the
  beginning.
\<close>

definition js_substr :: "string \<Rightarrow> int \<Rightarrow> string" where
  "js_substr str start =
     (if start < 0 then drop (nat (max (int (length str) + start) 0)) str
      else drop (nat start) str)"

text \<open>
  \<^verbatim>\<open>value.join('')\<close>: the concatenation of the strings the elements of the array
  convert to. The array is given as the list of these strings (\<open>"0"\<close> for the number 0,
  \<open>"1"\<close> for 1, the empty string for \<open>null\<close>); the conversion of a number to its string
  is left to the caller.
\<close>

definition join_empty :: "string list \<Rightarrow> string" where
  "join_empty vs = concat vs"

subsection \<open>flush, writeStringBits, align, end\<close>

text \<open>Lines 60 to 64. \<open>slice(0, offset)\<close> stops at the end of the buffer, as \<open>take\<close> does.\<close>

definition flush :: "BitStream \<Rightarrow> outcome" where
  "flush s =
     (case buffer s of
        None \<Rightarrow> Threw TypeError s
      | Some b \<Rightarrow>
          Returned (s\<lparr>emitted := emitted s @ [Data (take (offset s) b)],
                      buffer := Some (replicate BUFFER_SIZE 0),
                      offset := 0\<rparr>))"

text \<open>The loop of lines 121 to 130 over the complete groups of 8 characters.\<close>

fun write_complete :: "string list \<Rightarrow> BitStream \<Rightarrow> outcome" where
  "write_complete [] s = Returned s"
| "write_complete (byte # rest) s =
     (let uint8 = parseInt2 byte
      in and_then (if offset s = BUFFER_SIZE then flush s else Returned s)
           (\<lambda>s1. case buffer s1 of
                    None \<Rightarrow> Threw TypeError s1
                  | Some b \<Rightarrow>
                      (case buf_writeUInt8 b uint8 (offset s1) of
                         Inl e \<Rightarrow> Threw e s1
                       | Inr (b', _) \<Rightarrow>
                           write_complete rest
                             (s1\<lparr>buffer := Some b', offset := offset s1 + 1\<rparr>))))"

text \<open>
  Lines 112 to 133. When the concatenation is empty \<open>match\<close> gives \<open>null\<close>, and
  \<^verbatim>\<open>bytes.filter\<close> throws a \<open>TypeError\<close>.
\<close>

definition writeStringBits :: "string \<Rightarrow> BitStream \<Rightarrow> outcome" where
  "writeStringBits value s =
     (if not_bits value then Threw (InvalidFormat value) s
      else case js_match (bits s @ value) of
             None \<Rightarrow> Threw TypeError s
           | Some bytes \<Rightarrow>
               (let complete = filter (\<lambda>byte. length byte = 8) bytes;
                    leftover = filter (\<lambda>byte. length byte \<noteq> 8) bytes
                in and_then (write_complete complete s)
                     (\<lambda>s1. Returned (s1\<lparr>bits := (case leftover of [] \<Rightarrow> [] | l # _ \<Rightarrow> l)\<rparr>))))"

text \<open>Lines 38 to 45. The empty string is falsy.\<close>

definition align :: "BitStream \<Rightarrow> outcome" where
  "align s =
     (if bits s \<noteq> [] then
        (case js_repeat (CHR ''0'') (8 - int (length (bits s))) of
           Inl e \<Rightarrow> Threw e s
         | Inr padding \<Rightarrow>
             and_then (writeStringBits padding s) (\<lambda>s1. Returned (s1\<lparr>bits := []\<rparr>)))
      else Returned s)"

text \<open>Lines 50 to 55.\<close>

definition end_op :: "BitStream \<Rightarrow> outcome" where
  "end_op s =
     and_then (align s) (\<lambda>s1.
     and_then (flush s1) (\<lambda>s2.
       Returned (s2\<lparr>emitted := emitted s2 @ [Finish], buffer := None\<rparr>)))"

subsection \<open>writeArrayBits, writeIntBits\<close>

text \<open>Lines 73 to 75.\<close>

definition writeArrayBits :: "string list \<Rightarrow> BitStream \<Rightarrow> outcome" where
  "writeArrayBits value s = writeStringBits (join_empty value) s"

text \<open>
  Lines 88 to 101. A call that leaves \<open>bitLength\<close> out is the call with 32. The count
  of \<open>repeat\<close> is never negative, since \<open>toString(2)\<close> of a number below \<open>2 ^ 32\<close> has at
  most 32 digits (lemma \<open>toString2_padded\<close>); the branch is kept as the built-in has it.
\<close>

definition writeIntBits :: "int \<Rightarrow> int \<Rightarrow> BitStream \<Rightarrow> outcome" where
  "writeIntBits value bitLength s =
     (if bitLength < 0 then Threw MinBitLength s
      else if bitLength > 32 then Threw MaxBitLength s
      else let binary = toString2 (to_uint32 value)
           in case js_repeat (if value < 0 then CHR ''1'' else CHR ''0'')
                     (32 - int (length binary)) of
                Inl e \<Rightarrow> Threw e s
              | Inr pad \<Rightarrow> writeStringBits (js_substr (pad @ binary) (- bitLength)) s)"

subsection \<open>Aligned writes\<close>

text \<open>Lines 142 to 152.\<close>

definition beforeWriteAligned :: "int \<Rightarrow> BitStream \<Rightarrow> outcome" where
  "beforeWriteAligned byteLength s =
     (if byteLength > int BUFFER_SIZE then Threw ExceededBufferSize s
      else and_then (align s)
             (\<lambda>s1. if int (offset s1) + byteLength \<ge> int BUFFER_SIZE then flush s1
                   else Returned s1))"

text \<open>
  The writers of Node's \<open>Buffer\<close> are not part of the repository: a method that calls
  one takes it as a parameter, a \<open>codec\<close>, which stands for the call
  \<^verbatim>\<open>this.buffer.writeX(value, ...)\<close> with its value fixed. Given the buffer and the index
  it throws, or gives the buffer after the write and the number it returns. A codec
  that throws is taken to have stored nothing, as Node's writers check before they
  store. A read of \<^verbatim>\<open>this.buffer\<close> after \<open>end\<close> is a \<open>TypeError\<close>.
\<close>

type_synonym codec = "u8 list \<Rightarrow> nat \<Rightarrow> error + (u8 list \<times> nat)"

text \<open>\<^verbatim>\<open>this.offset = this.buffer.writeX(value, this.offset)\<close>\<close>

definition assign_offset :: "codec \<Rightarrow> BitStream \<Rightarrow> outcome" where
  "assign_offset wr s =
     (case buffer s of
        None \<Rightarrow> Threw TypeError s
      | Some b \<Rightarrow>
          (case wr b (offset s) of
             Inl e \<Rightarrow> Threw e s
           | Inr (b', r) \<Rightarrow> Returned (s\<lparr>buffer := Some b', offset := r\<rparr>)))"

text \<open>\<^verbatim>\<open>this.offset += this.buffer.write(value, this.offset, byteLength, encoding)\<close>\<close>

definition add_offset :: "codec \<Rightarrow> BitStream \<Rightarrow> outcome" where
  "add_offset wr s =
     (case buffer s of
        None \<Rightarrow> Threw TypeError s
      | Some b \<Rightarrow>
          (case wr b (offset s) of
             Inl e \<Rightarrow> Threw e s
           | Inr (b', r) \<Rightarrow> Returned (s\<lparr>buffer := Some b', offset := offset s + r\<rparr>)))"

text \<open>
  Lines 160 to 165. The first argument is what \<^verbatim>\<open>Buffer.byteLength(value, encoding)\<close>
  returns.
\<close>

definition write_op :: "int \<Rightarrow> codec \<Rightarrow> BitStream \<Rightarrow> outcome" where
  "write_op byteLength wr s = and_then (beforeWriteAligned byteLength s) (add_offset wr)"

text \<open>Lines 172 to 175.\<close>

definition writeDoubleBE :: "codec \<Rightarrow> BitStream \<Rightarrow> outcome" where
  "writeDoubleBE wr s = and_then (beforeWriteAligned 8 s) (assign_offset wr)"

text \<open>Lines 182 to 185.\<close>

definition writeDoubleLE :: "codec \<Rightarrow> BitStream \<Rightarrow> outcome" where
  "writeDoubleLE wr s = and_then (beforeWriteAligned 8 s) (assign_offset wr)"

text \<open>Lines 192 to 195.\<close>

definition writeFloatBE :: "codec \<Rightarrow> BitStream \<Rightarrow> outcome" where
  "writeFloatBE wr s = and_then (beforeWriteAligned 4 s) (assign_offset wr)"

text \<open>Lines 202 to 205.\<close>

definition writeFloatLE :: "codec \<Rightarrow> BitStream \<Rightarrow> outcome" where
  "writeFloatLE wr s = and_then (beforeWriteAligned 4 s) (assign_offset wr)"

text \<open>Lines 212 to 215.\<close>

definition writeInt8 :: "codec \<Rightarrow> BitStream \<Rightarrow> outcome" where
  "writeInt8 wr s = and_then (beforeWriteAligned 1 s) (assign_offset wr)"

text \<open>Lines 222 to 225.\<close>

definition writeInt16BE :: "codec \<Rightarrow> BitStream \<Rightarrow> outcome" where
  "writeInt16BE wr s = and_then (beforeWriteAligned 2 s) (assign_offset wr)"

text \<open>Lines 232 to 235.\<close>

definition writeInt16LE :: "codec \<Rightarrow> BitStream \<Rightarrow> outcome" where
  "writeInt16LE wr s = and_then (beforeWriteAligned 2 s) (assign_offset wr)"

text \<open>Lines 242 to 245.\<close>

definition writeInt32BE :: "codec \<Rightarrow> BitStream \<Rightarrow> outcome" where
  "writeInt32BE wr s = and_then (beforeWriteAligned 4 s) (assign_offset wr)"

text \<open>Lines 252 to 255.\<close>

definition writeInt32LE :: "codec \<Rightarrow> BitStream \<Rightarrow> outcome" where
  "writeInt32LE wr s = and_then (beforeWriteAligned 4 s) (assign_offset wr)"

text \<open>Lines 263 to 266.\<close>

definition writeIntBE :: "int \<Rightarrow> codec \<Rightarrow> BitStream \<Rightarrow> outcome" where
  "writeIntBE byteLength wr s = and_then (beforeWriteAligned byteLength s) (assign_offset wr)"

text \<open>Lines 274 to 277.\<close>

definition writeIntLE :: "int \<Rightarrow> codec \<Rightarrow> BitStream \<Rightarrow> outcome" where
  "writeIntLE byteLength wr s = and_then (beforeWriteAligned byteLength s) (assign_offset wr)"

text \<open>Lines 284 to 287.\<close>

definition writeUInt8 :: "codec \<Rightarrow> BitStream \<Rightarrow> outcome" where
  "writeUInt8 wr s = and_then (beforeWriteAligned 1 s) (assign_offset wr)"

text \<open>Lines 294 to 297.\<close>

definition writeUInt16BE :: "codec \<Rightarrow> BitStream \<Rightarrow> outcome" where
  "writeUInt16BE wr s = and_then (beforeWriteAligned 2 s) (assign_offset wr)"

text \<open>Lines 304 to 307.\<close>

definition writeUInt16LE :: "codec \<Rightarrow> BitStream \<Rightarrow> outcome" where
  "writeUInt16LE wr s = and_then (beforeWriteAligned 2 s) (assign_offset wr)"

text \<open>Lines 314 to 317.\<close>

definition writeUInt32BE :: "codec \<Rightarrow> BitStream \<Rightarrow> outcome" where
  "writeUInt32BE wr s = and_then (beforeWriteAligned 4 s) (assign_offset wr)"

text \<open>Lines 324 to 327.\<close>

definition writeUInt32LE :: "codec \<Rightarrow> BitStream \<Rightarrow> outcome" where
  "writeUInt32LE wr s = and_then (beforeWriteAligned 4 s) (assign_offset wr)"

text \<open>Lines 335 to 338.\<close>

definition writeUIntBE :: "int \<Rightarrow> codec \<Rightarrow> BitStream \<Rightarrow> outcome" where
  "writeUIntBE byteLength wr s = and_then (beforeWriteAligned byteLength s) (assign_offset wr)"

text \<open>Lines 346 to 349.\<close>

definition writeUIntLE :: "int \<Rightarrow> codec \<Rightarrow> BitStream \<Rightarrow> outcome" where
  "writeUIntLE byteLength wr s = and_then (beforeWriteAligned byteLength s) (assign_offset wr)"

text \<open>
  The contract of Node's fixed-width writers, for a value whose encoding is the bytes
  \<open>bs\<close>: the index is checked against the length of the buffer, then the bytes are
  stored from \<open>off\<close> on, and the index after them is returned.
\<close>

definition store_bytes :: "u8 list \<Rightarrow> codec" where
  "store_bytes bs b off =
     (if off + length bs > length b then Inl IndexOutOfRange
      else Inr (take off b @ bs @ drop (off + length bs) b, off + length bs))"

text \<open>
  The contract of \<^verbatim>\<open>buf.write(string, offset, length, encoding)\<close> for a string whose
  encoding is the bytes \<open>bs\<close> and fits from \<open>off\<close> on: the bytes are stored and their
  number is returned.
\<close>

definition store_string :: "u8 list \<Rightarrow> codec" where
  "store_string bs b off =
     (if off + length bs > length b then Inl IndexOutOfRange
      else Inr (take off b @ bs @ drop (off + length bs) b, length bs))"

subsection \<open>The public operations as calls\<close>

datatype call =
    Align
  | End
  | Flush
  | WriteArrayBits "string list"
  | WriteIntBits int int
  | WriteStringBits string
  | Write int codec
  | WriteDoubleBE codec
  | WriteDoubleLE codec
  | WriteFloatBE codec
  | WriteFloatLE codec
  | WriteInt8 codec
  | WriteInt16BE codec
  | WriteInt16LE codec
  | WriteInt32BE codec
  | WriteInt32LE codec
  | WriteIntBE int codec
  | WriteIntLE int codec
  | WriteUInt8 codec
  | WriteUInt16BE codec
  | WriteUInt16LE codec
  | WriteUInt32BE codec
  | WriteUInt32LE codec
  | WriteUIntBE int codec
  | WriteUIntLE int codec

fun exec :: "call \<Rightarrow> BitStream \<Rightarrow> outcome" where
  "exec Align s = align s"
| "exec End s = end_op s"
| "exec Flush s = flush s"
| "exec (WriteArrayBits vs) s = writeArrayBits vs s"
| "exec (WriteIntBits v n) s = writeIntBits v n s"
| "exec (WriteStringBits str) s = writeStringBits str s"
| "exec (Write n wr) s = write_op n wr s"
| "exec (WriteDoubleBE wr) s = writeDoubleBE wr s"
| "exec (WriteDoubleLE wr) s = writeDoubleLE wr s"
| "exec (WriteFloatBE wr) s = writeFloatBE wr s"
| "exec (WriteFloatLE wr) s = writeFloatLE wr s"
| "exec (WriteInt8 wr) s = writeInt8 wr s"
| "exec (WriteInt16BE wr) s = writeInt16BE wr s"
| "exec (WriteInt16LE wr) s = writeInt16LE wr s"
| "exec (WriteInt32BE wr) s = writeInt32BE wr s"
| "exec (WriteInt32LE wr) s = writeInt32LE wr s"
| "exec (WriteIntBE n wr) s = writeIntBE n wr s"
| "exec (WriteIntLE n wr) s = writeIntLE n wr s"
| "exec (WriteUInt8 wr) s = writeUInt8 wr s"
| "exec (WriteUInt16BE wr) s = writeUInt16BE wr s"
| "exec (WriteUInt16LE wr) s = writeUInt16LE wr s"
| "exec (WriteUInt32BE wr) s = writeUInt32BE wr s"
| "exec (WriteUInt32LE wr) s = writeUInt32LE wr s"
| "exec (WriteUIntBE n wr) s = writeUIntBE n wr s"
| "exec (WriteUIntLE n wr) s = writeUIntLE n wr s"

text \<open>The byte length an aligned write passes to \<open>beforeWriteAligned\<close>.\<close>

fun aligned_length :: "call \<Rightarrow> int option" where
  "aligned_length (Write n wr) = Some n"
| "aligned_length (WriteDoubleBE wr) = Some 8"
| "aligned_length (WriteDoubleLE wr) = Some 8"
| "aligned_length (WriteFloatBE wr) = Some 4"
| "aligned_length (WriteFloatLE wr) = Some 4"
| "aligned_length (WriteInt8 wr) = Some 1"
| "aligned_length (WriteInt16BE wr) = Some 2"
| "aligned_length (WriteInt16LE wr) = Some 2"
| "aligned_length (WriteInt32BE wr) = Some 4"
| "aligned_length (WriteInt32LE wr) = Some 4"
| "aligned_length (WriteIntBE n wr) = Some n"
| "aligned_length (WriteIntLE n wr) = Some n"
| "aligned_length (WriteUInt8 wr) = Some 1"
| "aligned_length (WriteUInt16BE wr) = Some 2"
| "aligned_length (WriteUInt16LE wr) = Some 2"
| "aligned_length (WriteUInt32BE wr) = Some 4"
| "aligned_length (WriteUInt32LE wr) = Some 4"
| "aligned_length (WriteUIntBE n wr) = Some n"
| "aligned_length (WriteUIntLE n wr) = Some n"
| "aligned_length c = None"

text \<open>The codec an aligned write calls after its guard.\<close>

fun codec_of :: "call \<Rightarrow> codec option" where
  "codec_of (Write n wr) = Some wr"
| "codec_of (WriteDoubleBE wr) = Some wr"
| "codec_of (WriteDoubleLE wr) = Some wr"
| "codec_of (WriteFloatBE wr) = Some wr"
| "codec_of (WriteFloatLE wr) = Some wr"
| "codec_of (WriteInt8 wr) = Some wr"
| "codec_of (WriteInt16BE wr) = Some wr"
| "codec_of (WriteInt16LE wr) = Some wr"
| "codec_of (WriteInt32BE wr) = Some wr"
| "codec_of (WriteInt32LE wr) = Some wr"
| "codec_of (WriteIntBE n wr) = Some wr"
| "codec_of (WriteIntLE n wr) = Some wr"
| "codec_of (WriteUInt8 wr) = Some wr"
| "codec_of (WriteUInt16BE wr) = Some wr"
| "codec_of (WriteUInt16LE wr) = Some wr"
| "codec_of (WriteUInt32BE wr) = Some wr"
| "codec_of (WriteUInt32LE wr) = Some wr"
| "codec_of (WriteUIntBE n wr) = Some wr"
| "codec_of (WriteUIntLE n wr) = Some wr"
| "codec_of c = None"

fun run :: "call list \<Rightarrow> BitStream \<Rightarrow> outcome" where
  "run [] s = Returned s"
| "run (c # cs) s = and_then (exec c s) (run cs)"

text \<open>
  The state a sequence of calls leaves behind, first call first. A call that throws
  leaves the state of the throw, and the caller may go on with it.
\<close>

fun after :: "call list \<Rightarrow> BitStream \<Rightarrow> BitStream" where
  "after [] s = s"
| "after (c # cs) s = after cs (state_of (exec c s))"

text \<open>The calls that align: \<open>align\<close>, \<open>end\<close> and every aligned write.\<close>

fun aligns :: "call \<Rightarrow> bool" where
  "aligns Flush = False"
| "aligns (WriteArrayBits vs) = False"
| "aligns (WriteIntBits v n) = False"
| "aligns (WriteStringBits str) = False"
| "aligns c = True"

subsection \<open>What the claims speak of\<close>

text \<open>A string of binary digits, and the state invariants of the writer.\<close>

definition bit_string :: "string \<Rightarrow> bool" where
  "bit_string str = list_all is_bit_char str"

definition pending_ok :: "BitStream \<Rightarrow> bool" where
  "pending_ok s = (bit_string (bits s) \<and> length (bits s) < 8)"

definition buffer_ok :: "BitStream \<Rightarrow> bool" where
  "buffer_ok s = (case buffer s of None \<Rightarrow> False | Some b \<Rightarrow> length b = BUFFER_SIZE)"

definition well_formed :: "BitStream \<Rightarrow> bool" where
  "well_formed s = (pending_ok s \<and> offset s \<le> BUFFER_SIZE \<and>
           (case buffer s of None \<Rightarrow> False | Some b \<Rightarrow> length b = BUFFER_SIZE))"

text \<open>The eight bits of a byte, most significant first, and the bits of a list of bytes.\<close>

definition byte_bits :: "u8 \<Rightarrow> string" where
  "byte_bits w = map (\<lambda>i. if bit w i then CHR ''1'' else CHR ''0'') (rev [0..<8])"

definition bytes_bits :: "u8 list \<Rightarrow> string" where
  "bytes_bits bs = concat (map byte_bits bs)"

text \<open>
  The bits a writer holds in all: those of the chunks it has emitted, those of the
  bytes of the buffer before the cursor, and the pending bits.
\<close>

fun event_bits :: "event \<Rightarrow> string" where
  "event_bits (Data bs) = bytes_bits bs"
| "event_bits Finish = []"

definition written_bits :: "BitStream \<Rightarrow> string" where
  "written_bits s =
     concat (map event_bits (emitted s)) @
     (case buffer s of None \<Rightarrow> [] | Some b \<Rightarrow> bytes_bits (take (offset s) b))"

definition stream_bits :: "BitStream \<Rightarrow> string" where
  "stream_bits s = written_bits s @ bits s"

text \<open>
  The least significant \<open>n\<close> bits of the 32-bit two's complement form of an integer,
  most significant first.
\<close>

definition low_bits :: "int \<Rightarrow> nat \<Rightarrow> string" where
  "low_bits v n =
     map (\<lambda>i. if bit (word_of_int v :: 32 word) i then CHR ''1'' else CHR ''0'') (rev [0..<n])"

text \<open>The byte a group of 8 binary digits stands for.\<close>

definition byte_of :: "string \<Rightarrow> u8" where
  "byte_of str = of_nat (parseInt2 str)"

section \<open>Properties\<close>

subsection \<open>Binary numerals and bytes\<close>

lemma rev_upt_Suc: "rev [0..<Suc n] = map Suc (rev [0..<n]) @ [0]"
proof -
  have "[0..<Suc n] = 0 # map Suc [0..<n]"
    by (simp add: upt_conv_Cons map_Suc_upt del: upt_Suc)
  then show ?thesis by (simp add: rev_map del: upt_Suc)
qed

lemma parseInt2_snoc: "parseInt2 (xs @ [c]) = 2 * parseInt2 xs + digit_val c"
  by (simp add: parseInt2_def)

lemma parseInt2_less: "parseInt2 str < 2 ^ length str"
proof (induction str rule: rev_induct)
  case Nil
  show ?case by (simp add: parseInt2_def)
next
  case (snoc c xs)
  have "digit_val c \<le> 1" by (simp add: digit_val_def)
  with snoc show ?case by (simp add: parseInt2_snoc)
qed

text \<open>
  \<open>parseInt(str, 2)\<close> has the digits of \<open>str\<close> as its bits, so the byte stored for a group
  of 8 digits reads back as the group.
\<close>

lemma bits_of_parseInt2:
  "bit_string str \<Longrightarrow>
   map (\<lambda>i. if bit (parseInt2 str) i then CHR ''1'' else CHR ''0'') (rev [0..<length str]) = str"
proof (induction str rule: rev_induct)
  case Nil
  show ?case by simp
next
  case (snoc c xs)
  then have xs: "bit_string xs" and c: "c = CHR ''0'' \<or> c = CHR ''1''"
    by (simp_all add: bit_string_def is_bit_char_def)
  have d: "(2 * parseInt2 xs + digit_val c) div 2 = parseInt2 xs"
    by (simp add: digit_val_def)
  have o: "odd (2 * parseInt2 xs + digit_val c) \<longleftrightarrow> c = CHR ''1''"
    by (simp add: digit_val_def)
  have "map (\<lambda>i. if bit (parseInt2 (xs @ [c])) i then CHR ''1'' else CHR ''0'') (rev [0..<length (xs @ [c])])
      = map (\<lambda>i. if bit (parseInt2 xs) i then CHR ''1'' else CHR ''0'') (rev [0..<length xs]) @ [c]"
    using c by (auto simp add: rev_upt_Suc parseInt2_snoc bit_Suc d bit_0 comp_def digit_val_def simp del: upt_Suc)
  with snoc.IH [OF xs] show ?case by simp
qed

lemma byte_bits_byte_of:
  assumes "bit_string str" and "length str = 8"
  shows "byte_bits (byte_of str) = str"
proof -
  have "byte_bits (byte_of str)
      = map (\<lambda>i. if bit (parseInt2 str) i then CHR ''1'' else CHR ''0'') (rev [0..<8])"
    unfolding byte_bits_def byte_of_def
    by (rule map_cong) (auto simp: bit_simps)
  with bits_of_parseInt2 [OF assms(1)] assms(2) show ?thesis by simp
qed

subsection \<open>The groups of 8 characters\<close>

lemma take_Suc_update: "i < length b \<Longrightarrow> take (Suc i) (b[i := v]) = take i b @ [v]"
  by (simp add: take_Suc_conv_app_nth)

lemma bit_string_no_terminator:
  "bit_string str \<Longrightarrow> takeWhile (\<lambda>c. \<not> line_terminator c) str = str"
  by (induction str) (auto simp: bit_string_def is_bit_char_def line_terminator_def)

lemma bit_string_take: "bit_string str \<Longrightarrow> bit_string (take n str)"
  by (auto simp: bit_string_def list_all_iff dest: in_set_takeD)

lemma bit_string_drop: "bit_string str \<Longrightarrow> bit_string (drop n str)"
  by (auto simp: bit_string_def list_all_iff dest: in_set_dropD)

lemma bit_string_append: "bit_string (xs @ ys) \<longleftrightarrow> bit_string xs \<and> bit_string ys"
  by (simp add: bit_string_def)

lemma match_all_short:
  assumes "bit_string str" "str \<noteq> []" "length str < 8"
  shows "match_all str = [str]"
proof -
  have tw: "takeWhile (\<lambda>c. \<not> line_terminator c) (take 8 str) = str"
    using assms bit_string_no_terminator by simp
  have e: "match_all [] = []" by (simp add: match_all.simps)
  show ?thesis
    by (subst match_all.simps) (simp only: tw Let_def assms(2) if_False length_drop drop_all order_refl e)
qed

lemma match_all_long:
  assumes "bit_string str" "8 \<le> length str"
  shows "match_all str = take 8 str # match_all (drop 8 str)"
proof -
  have tw: "takeWhile (\<lambda>c. \<not> line_terminator c) (take 8 str) = take 8 str"
    using assms bit_string_no_terminator bit_string_take by blast
  have ne: "str \<noteq> []" "take 8 str \<noteq> []" using assms by auto
  have l: "length (take 8 str) = 8" using assms by simp
  show ?thesis
    by (subst match_all.simps) (simp only: tw Let_def ne if_False l)
qed

text \<open>The groups of a string of binary digits: the complete ones, then what is left.\<close>

lemma match_all_groups:
  assumes "bit_string str"
  shows "filter (\<lambda>byte. length byte = 8) (match_all str) @
         filter (\<lambda>byte. length byte \<noteq> 8) (match_all str) = match_all str \<and>
         concat (match_all str) = str \<and>
         (\<forall>m \<in> set (match_all str). bit_string m \<and> m \<noteq> [] \<and> length m \<le> 8) \<and>
         length (filter (\<lambda>byte. length byte \<noteq> 8) (match_all str)) \<le> 1"
  using assms
proof (induction "length str" arbitrary: str rule: less_induct)
  case less
  show ?case
  proof (cases "8 \<le> length str")
    case True
    have d: "bit_string (drop 8 str)" using less.prems by (rule bit_string_drop)
    have t: "bit_string (take 8 str)" using less.prems by (rule bit_string_take)
    have l: "length (drop 8 str) < length str" using True by simp
    from less.hyps [OF l d] match_all_long [OF less.prems True] True t
    show ?thesis by (auto simp: min_def)
  next
    case False
    show ?thesis
    proof (cases "str = []")
      case True
      then show ?thesis by (simp add: match_all.simps)
    next
      case ne: False
      from match_all_short [OF less.prems ne] False less.prems ne
      show ?thesis by simp
    qed
  qed
qed

subsection \<open>The loop that stores the complete bytes\<close>

lemma bytes_bits_snoc: "bytes_bits (bs @ [w]) = bytes_bits bs @ byte_bits w"
  by (simp add: bytes_bits_def)

lemma byte_string_value: "length byte = 8 \<Longrightarrow> \<not> 255 < parseInt2 byte"
  using parseInt2_less [of byte] by simp

text \<open>One turn of the loop of lines 121 to 130, on a buffer that is in place.\<close>

lemma write_complete_step:
  assumes "buffer s = Some b" "length b = BUFFER_SIZE" "offset s \<le> BUFFER_SIZE" "length byte = 8"
  shows "write_complete (byte # rest) s =
         write_complete rest
           (if offset s = BUFFER_SIZE
            then s\<lparr>emitted := emitted s @ [Data b],
                   buffer := Some ((replicate BUFFER_SIZE 0)[0 := byte_of byte]), offset := 1\<rparr>
            else s\<lparr>buffer := Some (b[offset s := byte_of byte]), offset := offset s + 1\<rparr>)"
  using assms byte_string_value [OF assms(4)]
  by (simp add: flush_def buf_writeUInt8_def byte_of_def BUFFER_SIZE_def)

text \<open>The loop returns, keeps the buffer in place and appends the groups to the stream.\<close>

lemma write_complete_ok:
  assumes "\<forall>byte \<in> set bs. bit_string byte \<and> length byte = 8"
    and "buffer s = Some b" "length b = BUFFER_SIZE" "offset s \<le> BUFFER_SIZE"
  shows "\<exists>s1 b1. write_complete bs s = Returned s1 \<and> bits s1 = bits s \<and>
           buffer s1 = Some b1 \<and> length b1 = BUFFER_SIZE \<and> offset s1 \<le> BUFFER_SIZE \<and>
           written_bits s1 = written_bits s @ concat bs"
  using assms
proof (induction bs arbitrary: s b)
  case Nil
  then show ?case by simp
next
  case (Cons byte rest)
  then have byte: "bit_string byte" "length byte = 8"
    and rest: "\<forall>byte \<in> set rest. bit_string byte \<and> length byte = 8"
    by simp_all
  let ?s1 = "if offset s = BUFFER_SIZE
            then s\<lparr>emitted := emitted s @ [Data b],
                   buffer := Some ((replicate BUFFER_SIZE 0)[0 := byte_of byte]), offset := 1\<rparr>
            else s\<lparr>buffer := Some (b[offset s := byte_of byte]), offset := offset s + 1\<rparr>"
  have step: "write_complete (byte # rest) s = write_complete rest ?s1"
    using Cons.prems(2-4) byte(2) by (rule write_complete_step)
  have b1: "\<exists>b1. buffer ?s1 = Some b1 \<and> length b1 = BUFFER_SIZE"
    using Cons.prems(3) by simp
  have o1: "offset ?s1 \<le> BUFFER_SIZE"
    using Cons.prems(4) by (auto simp: BUFFER_SIZE_def)
  have w1: "written_bits ?s1 = written_bits s @ byte"
    using Cons.prems(2-4) byte_bits_byte_of [OF byte]
    by (auto simp: written_bits_def bytes_bits_snoc take_Suc_update BUFFER_SIZE_def bytes_bits_def)
  from b1 obtain b1 where "buffer ?s1 = Some b1" "length b1 = BUFFER_SIZE" by blast
  from Cons.IH [OF rest this o1] step w1 show ?case by auto
qed

subsection \<open>writeStringBits on a well-formed writer\<close>

lemma not_bits_iff: "not_bits value \<longleftrightarrow> \<not> bit_string value"
  by (simp add: not_bits_def bit_string_def list_ex_iff list_all_iff)

lemma written_bits_bits_update [simp]: "written_bits (s\<lparr>bits := p\<rparr>) = written_bits s"
  by (simp add: written_bits_def split: option.splits)

lemma concat_at_most_one:
  "length xs \<le> 1 \<Longrightarrow> concat xs = (case xs of [] \<Rightarrow> [] | l # _ \<Rightarrow> l)"
  by (cases xs) simp_all

lemma length_concat_eights:
  "\<forall>x \<in> set xs. length x = 8 \<Longrightarrow> length (concat xs) = 8 * length xs"
  by (induction xs) simp_all

text \<open>
  On a well-formed writer, a string of binary digits that is not empty, or that finds
  bits pending, is accepted: the call returns, the writer stays well-formed, the digits
  are appended to the bits of the stream, and the pending bits are what does not fill
  a byte.
\<close>

lemma writeStringBits_ok:
  assumes "well_formed s" "bit_string value" "bits s @ value \<noteq> []"
  shows "\<exists>s'. writeStringBits value s = Returned s' \<and> well_formed s' \<and>
           stream_bits s' = stream_bits s @ value \<and>
           length (bits s') = (length (bits s) + length value) mod 8"
proof -
  let ?str = "bits s @ value"
  let ?ms = "match_all ?str"
  let ?complete = "filter (\<lambda>byte. length byte = 8) ?ms"
  let ?leftover = "filter (\<lambda>byte. length byte \<noteq> 8) ?ms"
  let ?rest = "case ?leftover of [] \<Rightarrow> [] | l # _ \<Rightarrow> l"
  from assms(1) obtain b where b: "buffer s = Some b" "length b = BUFFER_SIZE"
    and off: "offset s \<le> BUFFER_SIZE" and p: "bit_string (bits s)"
    by (auto simp: well_formed_def pending_ok_def split: option.splits)
  have str: "bit_string ?str" using p assms(2) by (simp add: bit_string_append)
  note g = match_all_groups [OF str]
  from g have part: "?complete @ ?leftover = ?ms" and cat: "concat ?ms = ?str"
    and each: "\<forall>m \<in> set ?ms. bit_string m \<and> m \<noteq> [] \<and> length m \<le> 8"
    and one: "length ?leftover \<le> 1"
    by blast+
  have ne: "?ms \<noteq> []" using cat assms(3) by auto
  then have jm: "js_match ?str = Some ?ms"
    by (cases ?ms) (simp_all add: js_match_def)
  have c8: "\<forall>byte \<in> set ?complete. bit_string byte \<and> length byte = 8"
    using each by simp
  from write_complete_ok [OF c8 b off] obtain s1 b1 where
    s1: "write_complete ?complete s = Returned s1" "bits s1 = bits s" "buffer s1 = Some b1"
       "length b1 = BUFFER_SIZE" "offset s1 \<le> BUFFER_SIZE"
       "written_bits s1 = written_bits s @ concat ?complete"
    by blast
  have res: "writeStringBits value s = Returned (s1\<lparr>bits := ?rest\<rparr>)"
    using assms(2) jm s1(1) by (simp add: writeStringBits_def not_bits_iff Let_def)
  have "concat ?complete @ concat ?leftover = concat (?complete @ ?leftover)" by simp
  then have split: "concat ?complete @ ?rest = ?str"
    using part cat concat_at_most_one [OF one] by simp
  have rest_in: "?rest = [] \<or> ?rest \<in> set ?leftover"
    by (cases ?leftover) simp_all
  then have rest_ok: "bit_string ?rest \<and> length ?rest < 8"
  proof
    assume "?rest = []"
    then show ?thesis by (simp add: bit_string_def)
  next
    assume "?rest \<in> set ?leftover"
    then have "?rest \<in> set ?ms" "length ?rest \<noteq> 8" by simp_all
    with each show ?thesis by (metis le_neq_implies_less)
  qed
  have well_formed': "well_formed (s1\<lparr>bits := ?rest\<rparr>)"
    using rest_ok s1(3-5) by (simp add: well_formed_def pending_ok_def)
  have sb: "stream_bits (s1\<lparr>bits := ?rest\<rparr>) = stream_bits s @ value"
    using s1(6) split by (simp add: stream_bits_def)
  have "length ?str = 8 * length ?complete + length ?rest"
    using split length_concat_eights [of ?complete] by (metis (no_types, lifting) c8 length_append)
  then have len: "length ?rest = (length (bits s) + length value) mod 8"
    using rest_ok by simp
  from res well_formed' sb len show ?thesis by simp
qed

subsection \<open>align on a well-formed writer\<close>

lemma match_all_Nil: "match_all [] = []"
  by (simp add: match_all.simps)

lemma match_all_one_byte:
  assumes "bit_string str" "length str = 8"
  shows "match_all str = [str]"
  using match_all_long [OF assms(1)] assms(2) by (simp add: match_all_Nil)

lemma bit_string_replicate_0: "bit_string (replicate n CHR ''0'')"
  by (simp add: bit_string_def list_all_iff is_bit_char_def)

text \<open>The byte that alignment completes.\<close>

lemma align_result:
  assumes "well_formed s" "buffer s = Some b" "bits s \<noteq> []"
  shows "align s = Returned
           (if offset s = BUFFER_SIZE
            then \<lparr>bits = [],
                  buffer = Some ((replicate BUFFER_SIZE 0)
                             [0 := byte_of (bits s @ replicate (8 - length (bits s)) CHR ''0'')]),
                  offset = 1,
                  emitted = emitted s @ [Data b]\<rparr>
            else \<lparr>bits = [],
                  buffer = Some (b[offset s := byte_of (bits s @ replicate (8 - length (bits s)) CHR ''0'')]),
                  offset = offset s + 1,
                  emitted = emitted s\<rparr>)"
proof -
  let ?pad = "replicate (8 - length (bits s)) CHR ''0''"
  let ?byte = "bits s @ ?pad"
  from assms(1) have p: "bit_string (bits s)" "length (bits s) < 8"
    and off: "offset s \<le> BUFFER_SIZE" and lb: "length b = BUFFER_SIZE"
    using assms(2) by (auto simp: well_formed_def pending_ok_def)
  have rep: "js_repeat CHR ''0'' (8 - int (length (bits s))) = Inr ?pad"
    using p(2) by (simp add: js_repeat_def nat_diff_distrib')
  have byte: "bit_string ?byte" "length ?byte = 8"
    using p by (simp_all add: bit_string_append bit_string_replicate_0)
  have jm: "js_match ?byte = Some [?byte]"
    using match_all_one_byte [OF byte] by (simp add: js_match_def)
  have nb: "\<not> not_bits ?pad"
    by (simp add: not_bits_iff bit_string_replicate_0)
  have wc: "write_complete [?byte] s =
         write_complete []
           (if offset s = BUFFER_SIZE
            then s\<lparr>emitted := emitted s @ [Data b],
                   buffer := Some ((replicate BUFFER_SIZE 0)[0 := byte_of ?byte]), offset := 1\<rparr>
            else s\<lparr>buffer := Some (b[offset s := byte_of ?byte]), offset := offset s + 1\<rparr>)"
    using assms(2) lb off byte(2) by (rule write_complete_step)
  have "writeStringBits ?pad s =
          and_then (write_complete [?byte] s) (\<lambda>s1. Returned (s1\<lparr>bits := []\<rparr>))"
    using nb jm byte(2) by (simp add: writeStringBits_def)
  then show ?thesis
    using assms(3) rep wc by (simp add: align_def)
qed

lemma align_empty: "bits s = [] \<Longrightarrow> align s = Returned s"
  by (simp add: align_def)

subsection \<open>The claims on writeStringBits\<close>

text \<open>
  Claim C4. When the string holds a character other than 0 and 1, \<open>writeStringBits\<close>
  throws the format error, and the state at the throw is the state it was called in:
  pending bits, buffer, cursor and emitted events are untouched.
\<close>

theorem writeStringBits_invalid_format:
  assumes "\<exists>c \<in> set value. c \<noteq> CHR ''0'' \<and> c \<noteq> CHR ''1''"
  shows "writeStringBits value s = Threw (InvalidFormat value) s"
proof -
  from assms have "not_bits value"
    by (auto simp: not_bits_def list_ex_iff is_bit_char_def)
  then show ?thesis
    by (simp add: writeStringBits_def)
qed

theorem writeStringBits_invalid_format_witness:
  "(\<exists>c \<in> set ''0120''. c \<noteq> CHR ''0'' \<and> c \<noteq> CHR ''1'') \<and>
   writeStringBits ''0120'' new_BitStream = Threw (InvalidFormat ''0120'') new_BitStream"
proof -
  have h: "\<exists>c \<in> set ''0120''. c \<noteq> CHR ''0'' \<and> c \<noteq> CHR ''1''" by simp
  show ?thesis using h writeStringBits_invalid_format [OF h, of new_BitStream] by simp
qed

text \<open>
  Claim C2. The empty string is said to be a no-op in every state. On a writer with no
  pending bits the concatenation of line 117 is empty, \<open>match\<close> gives \<open>null\<close>, and the
  call throws a \<open>TypeError\<close>: here on the writer the constructor builds.
\<close>

theorem writeStringBits_empty_throws:
  "writeStringBits [] new_BitStream = Threw TypeError new_BitStream"
  by (simp add: writeStringBits_def not_bits_def js_match_def new_BitStream_def match_all_Nil)

text \<open>With bits pending, the empty string does leave a well-formed writer as it is.\<close>

lemma writeStringBits_empty_pending:
  assumes "pending_ok s" "bits s \<noteq> []"
  shows "writeStringBits [] s = Returned s"
proof -
  from assms have "match_all (bits s) = [bits s]"
    by (simp add: pending_ok_def match_all_short)
  then show ?thesis
    using assms by (simp add: writeStringBits_def not_bits_def js_match_def pending_ok_def)
qed

text \<open>
  Claim C9. On a new writer, \<open>writeStringBits("0011")\<close> twice and then \<open>flush()\<close> emit one
  chunk, the byte \<open>0x33\<close>.
\<close>

theorem two_nibbles_one_byte:
  "run [WriteStringBits ''0011'', WriteStringBits ''0011'', Flush] new_BitStream =
     Returned \<lparr>bits = [], buffer = Some (replicate BUFFER_SIZE 0), offset = 0,
               emitted = [Data [0x33]]\<rparr>"
  by (simp add: writeStringBits_def not_bits_def js_match_def new_BitStream_def is_bit_char_def
      line_terminator_def parseInt2_def digit_val_def buf_writeUInt8_def flush_def
      BUFFER_SIZE_def match_all.simps take_Suc_update)

subsection \<open>The claims on align\<close>

text \<open>
  Claim C5. On a well-formed writer with \<open>n\<close> pending bits, \<open>1 \<le> n \<le> 7\<close>, \<open>align\<close>
  appends \<open>8 - n\<close> zeros; the byte whose bits are the pending bits followed by the zeros
  is stored at the cursor (at index 0 of a new buffer when the cursor has reached the
  capacity, after the flush of line 125), the cursor moves by one and the pending bits
  are empty. With no pending bits \<open>align\<close> returns the state unchanged.
\<close>

theorem align_zero_pads:
  assumes "well_formed s" and "buffer s = Some b"
  shows "(bits s = [] \<longrightarrow> align s = Returned s) \<and>
         (bits s \<noteq> [] \<longrightarrow>
            (let padding = replicate (8 - length (bits s)) CHR ''0'';
                 byte = byte_of (bits s @ padding)
             in byte_bits byte = bits s @ padding \<and>
                align s = Returned
                  (if offset s = BUFFER_SIZE
                   then \<lparr>bits = [], buffer = Some ((replicate BUFFER_SIZE 0)[0 := byte]),
                         offset = 1, emitted = emitted s @ [Data b]\<rparr>
                   else \<lparr>bits = [], buffer = Some (b[offset s := byte]),
                         offset = offset s + 1, emitted = emitted s\<rparr>)))"
proof (intro conjI impI)
  assume "bits s = []"
  then show "align s = Returned s" by (rule align_empty)
next
  assume ne: "bits s \<noteq> []"
  let ?padding = "replicate (8 - length (bits s)) CHR ''0''"
  from assms(1) have "bit_string (bits s @ ?padding)" "length (bits s @ ?padding) = 8"
    by (simp_all add: well_formed_def pending_ok_def bit_string_append bit_string_replicate_0)
  then have "byte_bits (byte_of (bits s @ ?padding)) = bits s @ ?padding"
    by (rule byte_bits_byte_of)
  with align_result [OF assms ne]
  show "let padding = ?padding; byte = byte_of (bits s @ padding)
        in byte_bits byte = bits s @ padding \<and>
           align s = Returned
             (if offset s = BUFFER_SIZE
              then \<lparr>bits = [], buffer = Some ((replicate BUFFER_SIZE 0)[0 := byte]),
                    offset = 1, emitted = emitted s @ [Data b]\<rparr>
              else \<lparr>bits = [], buffer = Some (b[offset s := byte]),
                    offset = offset s + 1, emitted = emitted s\<rparr>)"
    by (simp add: Let_def)
qed

lemma byte_of_0011_padded: "byte_of ''00110000'' = 0x30"
  by (simp add: byte_of_def parseInt2_def digit_val_def)

theorem align_zero_pads_witness:
  "well_formed \<lparr>bits = ''0011'', buffer = Some (replicate BUFFER_SIZE 0), offset = 0, emitted = []\<rparr> \<and>
   align \<lparr>bits = ''0011'', buffer = Some (replicate BUFFER_SIZE 0), offset = 0, emitted = []\<rparr> =
     Returned \<lparr>bits = [], buffer = Some ((replicate BUFFER_SIZE 0)[0 := 0x30]), offset = 1,
               emitted = []\<rparr>"
proof -
  let ?s = "\<lparr>bits = ''0011'', buffer = Some (replicate BUFFER_SIZE 0), offset = 0, emitted = []\<rparr>"
  have w: "well_formed ?s"
    by (simp add: well_formed_def pending_ok_def bit_string_def is_bit_char_def BUFFER_SIZE_def)
  have b: "buffer ?s = Some (replicate BUFFER_SIZE 0)" by simp
  have r: "replicate 4 CHR ''0'' = ''0000''" by code_simp
  show ?thesis
    using w align_zero_pads [OF w b]
    by (simp add: Let_def r byte_of_0011_padded BUFFER_SIZE_def)
qed

subsection \<open>The claims on the aligned writes\<close>

text \<open>
  Claim C3. An aligned write whose byte length exceeds 1024 throws the error of line
  144, and the state at the throw is the state it was called in: nothing was aligned,
  flushed, written or emitted.
\<close>

theorem aligned_write_exceeds_capacity:
  assumes "aligned_length c = Some n" and "n > 1024"
  shows "exec c s = Threw ExceededBufferSize s"
  using assms
  by (cases c) (simp_all add: write_op_def writeIntBE_def writeIntLE_def writeUIntBE_def
      writeUIntLE_def beforeWriteAligned_def BUFFER_SIZE_def)

theorem aligned_write_exceeds_capacity_witness:
  "aligned_length (Write 1025 (store_string (replicate 1025 0x41))) = Some 1025 \<and>
   (1025 :: int) > 1024 \<and>
   exec (Write 1025 (store_string (replicate 1025 0x41)))
     \<lparr>bits = ''0011'', buffer = Some (replicate BUFFER_SIZE 0), offset = 7, emitted = []\<rparr> =
   Threw ExceededBufferSize
     \<lparr>bits = ''0011'', buffer = Some (replicate BUFFER_SIZE 0), offset = 7, emitted = []\<rparr>"
proof -
  have a: "aligned_length (Write 1025 (store_string (replicate 1025 0x41))) = Some 1025"
    by simp
  have g: "(1025 :: int) > 1024" by simp
  show ?thesis
    using a g aligned_write_exceeds_capacity [OF a g] by simp
qed

subsection \<open>The pending bits under every call\<close>

lemma pending_ok_bits: "bits s' = bits s \<Longrightarrow> pending_ok s' = pending_ok s"
  by (simp add: pending_ok_def)

lemma flush_bits: "bits (state_of (flush s)) = bits s"
  by (simp add: flush_def split: option.splits)

lemma write_complete_bits: "bits (state_of (write_complete bs s)) = bits s"
proof (induction bs arbitrary: s)
  case Nil
  show ?case by simp
next
  case (Cons byte rest)
  show ?case
    by (simp add: Cons.IH flush_def Let_def split: option.splits sum.splits prod.splits)
qed

lemma assign_offset_bits: "bits (state_of (assign_offset wr s)) = bits s"
  by (simp add: assign_offset_def split: option.splits sum.splits prod.splits)

lemma add_offset_bits: "bits (state_of (add_offset wr s)) = bits s"
  by (simp add: add_offset_def split: option.splits sum.splits prod.splits)

text \<open>
  In any state whose pending bits are fewer than 8 binary digits, whatever the buffer
  and the cursor, every call leaves such pending bits, whether it returns or throws.
\<close>

lemma writeStringBits_pending:
  assumes "pending_ok s"
  shows "pending_ok (state_of (writeStringBits value s))"
proof (cases "not_bits value \<or> js_match (bits s @ value) = None")
  case True
  with assms show ?thesis
    by (auto simp: writeStringBits_def)
next
  case False
  let ?str = "bits s @ value"
  let ?ms = "match_all ?str"
  let ?complete = "filter (\<lambda>byte. length byte = 8) ?ms"
  let ?leftover = "filter (\<lambda>byte. length byte \<noteq> 8) ?ms"
  let ?rest = "case ?leftover of [] \<Rightarrow> [] | l # _ \<Rightarrow> l"
  from False have v: "bit_string value" and jm: "js_match ?str = Some ?ms"
    by (auto simp: not_bits_iff js_match_def split: list.splits)
  from assms v have "bit_string ?str"
    by (simp add: pending_ok_def bit_string_append)
  from match_all_groups [OF this]
  have each: "\<forall>m \<in> set ?ms. bit_string m \<and> m \<noteq> [] \<and> length m \<le> 8" by blast
  have "?rest = [] \<or> ?rest \<in> set ?leftover"
    by (cases ?leftover) simp_all
  then have rest_ok: "bit_string ?rest \<and> length ?rest < 8"
  proof
    assume "?rest = []"
    then show ?thesis by (simp add: bit_string_def)
  next
    assume "?rest \<in> set ?leftover"
    then have "?rest \<in> set ?ms" "length ?rest \<noteq> 8" by simp_all
    with each show ?thesis by (metis le_neq_implies_less)
  qed
  show ?thesis
  proof (cases "write_complete ?complete s")
    case (Returned s1)
    with False jm rest_ok show ?thesis
      by (simp add: writeStringBits_def pending_ok_def)
  next
    case (Threw e s1)
    with write_complete_bits [of ?complete s] have "bits s1 = bits s" by simp
    with Threw False jm assms show ?thesis
      by (simp add: writeStringBits_def pending_ok_def)
  qed
qed

lemma align_pending:
  assumes "pending_ok s"
  shows "pending_ok (state_of (align s))"
proof (cases "bits s = []")
  case True
  with assms show ?thesis by (simp add: align_def)
next
  case False
  show ?thesis
  proof (cases "js_repeat CHR ''0'' (8 - int (length (bits s)))")
    case (Inl e)
    with False assms show ?thesis by (simp add: align_def)
  next
    case (Inr padding)
    from writeStringBits_pending [OF assms, of padding] Inr False show ?thesis
      by (cases "writeStringBits padding s")
         (simp_all add: align_def pending_ok_def bit_string_def)
  qed
qed

lemma align_returned_bits: "align s = Returned s' \<Longrightarrow> bits s' = []"
  by (cases "writeStringBits (replicate (nat (8 - int (length (bits s)))) CHR ''0'') s")
     (auto simp: align_def js_repeat_def split: if_splits)

lemma flush_pending: "pending_ok s \<Longrightarrow> pending_ok (state_of (flush s))"
  using flush_bits [of s] by (simp add: pending_ok_def)

lemma beforeWriteAligned_pending:
  assumes "pending_ok s"
  shows "pending_ok (state_of (beforeWriteAligned n s))"
  using assms align_pending [OF assms]
  by (cases "align s") (auto simp: beforeWriteAligned_def flush_pending)

lemma beforeWriteAligned_returned_bits:
  assumes "beforeWriteAligned n s = Returned s'"
  shows "bits s' = []"
proof (cases "align s")
  case (Returned s1)
  then have "bits s1 = []" by (rule align_returned_bits)
  with assms Returned flush_bits [of s1] show ?thesis
    by (auto simp: beforeWriteAligned_def split: if_splits)
next
  case (Threw e s1)
  with assms show ?thesis
    by (simp add: beforeWriteAligned_def split: if_splits)
qed

lemma aligned_pending:
  assumes "pending_ok s" "\<And>t. bits (state_of (f t)) = bits t"
  shows "pending_ok (state_of (and_then (beforeWriteAligned n s) f))"
  using beforeWriteAligned_pending [OF assms(1), of n] assms(2)
  by (cases "beforeWriteAligned n s") (simp_all add: pending_ok_def)

lemma aligned_returned_bits:
  assumes "and_then (beforeWriteAligned n s) f = Returned s'" "\<And>t. bits (state_of (f t)) = bits t"
  shows "bits s' = []"
proof (cases "beforeWriteAligned n s")
  case (Returned s1)
  with assms(1) have "f s1 = Returned s'" by simp
  with assms(2) [of s1] beforeWriteAligned_returned_bits [OF Returned] show ?thesis by simp
next
  case (Threw e s1)
  with assms(1) show ?thesis by simp
qed

lemma end_op_pending:
  assumes "pending_ok s"
  shows "pending_ok (state_of (end_op s))"
proof (cases "align s")
  case (Returned s1)
  with align_pending [OF assms] have "pending_ok s1" by simp
  with Returned flush_bits [of s1] show ?thesis
    by (cases "flush s1") (simp_all add: end_op_def pending_ok_def)
next
  case (Threw e s1)
  with align_pending [OF assms] show ?thesis by (simp add: end_op_def)
qed

lemma end_op_returned_bits:
  assumes "end_op s = Returned s'"
  shows "bits s' = []"
proof (cases "align s")
  case (Returned s1)
  then have "bits s1 = []" by (rule align_returned_bits)
  with assms Returned flush_bits [of s1] show ?thesis
    by (cases "flush s1") (auto simp: end_op_def)
next
  case (Threw e s1)
  with assms show ?thesis by (simp add: end_op_def)
qed

lemma writeIntBits_pending:
  "pending_ok s \<Longrightarrow> pending_ok (state_of (writeIntBits v n s))"
  by (simp add: writeIntBits_def Let_def writeStringBits_pending split: sum.splits)

lemma pending_ok_preserved:
  assumes "pending_ok s"
  shows "pending_ok (state_of (exec c s))"
  using assms
  by (cases c)
     (simp_all add: align_pending end_op_pending flush_pending writeArrayBits_def
        writeStringBits_pending writeIntBits_pending write_op_def
        writeDoubleBE_def writeDoubleLE_def writeFloatBE_def writeFloatLE_def writeInt8_def
        writeInt16BE_def writeInt16LE_def writeInt32BE_def writeInt32LE_def writeIntBE_def
        writeIntLE_def writeUInt8_def writeUInt16BE_def writeUInt16LE_def writeUInt32BE_def
        writeUInt32LE_def writeUIntBE_def writeUIntLE_def
        aligned_pending assign_offset_bits add_offset_bits)

lemma pending_ok_new: "pending_ok new_BitStream"
  by (simp add: pending_ok_def new_BitStream_def bit_string_def)

lemma pending_ok_after: "pending_ok s \<Longrightarrow> pending_ok (after cs s)"
  by (induction cs arbitrary: s) (simp_all add: pending_ok_preserved)

lemma aligns_returned_bits:
  assumes "aligns c" "exec c s = Returned s'"
  shows "bits s' = []"
  using assms
  by (cases c)
     (auto simp: write_op_def
        writeDoubleBE_def writeDoubleLE_def writeFloatBE_def writeFloatLE_def writeInt8_def
        writeInt16BE_def writeInt16LE_def writeInt32BE_def writeInt32LE_def writeIntBE_def
        writeIntLE_def writeUInt8_def writeUInt16BE_def writeUInt16LE_def writeUInt32BE_def
        writeUInt32LE_def writeUIntBE_def writeUIntLE_def
        intro: align_returned_bits end_op_returned_bits
          aligned_returned_bits [OF _ assign_offset_bits]
          aligned_returned_bits [OF _ add_offset_bits])

text \<open>
  Claim C7. On a writer built by the constructor and used through any sequence of
  calls, a call that returns leaves fewer than 8 pending bits, and none at all when it
  is \<open>align\<close>, \<open>end\<close> or an aligned write.
\<close>

theorem pending_bits_below_8:
  assumes "exec c (after cs new_BitStream) = Returned s'"
  shows "length (bits s') < 8 \<and> (aligns c \<longrightarrow> bits s' = [])"
proof -
  have "pending_ok (after cs new_BitStream)"
    using pending_ok_new by (rule pending_ok_after)
  from pending_ok_preserved [OF this, of c] assms
  have "length (bits s') < 8" by (simp add: pending_ok_def)
  moreover have "aligns c \<longrightarrow> bits s' = []"
    using assms by (blast intro: aligns_returned_bits)
  ultimately show ?thesis by blast
qed

theorem pending_bits_below_8_witness:
  "exec Align (after [WriteStringBits ''0011''] new_BitStream) =
     Returned \<lparr>bits = [], buffer = Some ((replicate BUFFER_SIZE 0)[0 := 0x30]), offset = 1,
               emitted = []\<rparr> \<and>
   length (bits \<lparr>bits = [], buffer = Some ((replicate BUFFER_SIZE 0)[0 := 0x30]), offset = 1,
                 emitted = []\<rparr>) < 8 \<and>
   aligns Align \<and>
   bits \<lparr>bits = [], buffer = Some ((replicate BUFFER_SIZE 0)[0 := 0x30]), offset = 1,
         emitted = []\<rparr> = []"
proof -
  have a: "after [WriteStringBits ''0011''] new_BitStream =
      \<lparr>bits = ''0011'', buffer = Some (replicate BUFFER_SIZE 0), offset = 0, emitted = []\<rparr>"
    by (simp add: writeStringBits_def not_bits_def js_match_def new_BitStream_def
        is_bit_char_def line_terminator_def match_all.simps)
  have w: "well_formed \<lparr>bits = ''0011'', buffer = Some (replicate BUFFER_SIZE 0), offset = 0,
                        emitted = []\<rparr>"
    by (simp add: well_formed_def pending_ok_def bit_string_def is_bit_char_def BUFFER_SIZE_def)
  have r: "replicate 4 CHR ''0'' = ''0000''" by code_simp
  have h: "exec Align (after [WriteStringBits ''0011''] new_BitStream) =
     Returned \<lparr>bits = [], buffer = Some ((replicate BUFFER_SIZE 0)[0 := 0x30]), offset = 1,
               emitted = []\<rparr>"
    unfolding a using align_result [OF w]
    by (simp add: r byte_of_0011_padded BUFFER_SIZE_def)
  show ?thesis
    using h pending_bits_below_8 [OF h] by simp
qed

subsection \<open>The buffer under alignment\<close>

lemma flush_buffer_ok: "buffer_ok s \<Longrightarrow> buffer_ok (state_of (flush s))"
  by (simp add: flush_def buffer_ok_def split: option.splits)

text \<open>A buffer of 1024 bytes stays one under the bit-level writes, \<open>align\<close> and \<open>flush\<close>.\<close>

lemma write_complete_buffer_ok:
  "buffer_ok s \<Longrightarrow> buffer_ok (state_of (write_complete bs s))"
proof (induction bs arbitrary: s)
  case Nil
  then show ?case by simp
next
  case (Cons byte rest)
  let ?s1 = "if offset s = BUFFER_SIZE
             then s\<lparr>emitted := emitted s @ [Data (take (offset s) (the (buffer s)))],
                    buffer := Some (replicate BUFFER_SIZE 0), offset := 0\<rparr>
             else s"
  from Cons.prems obtain b where b: "buffer s = Some b" "length b = BUFFER_SIZE"
    by (auto simp: buffer_ok_def split: option.splits)
  then have "\<exists>b1. buffer ?s1 = Some b1 \<and> length b1 = BUFFER_SIZE"
    by simp
  then obtain b1 where b1: "buffer ?s1 = Some b1" "length b1 = BUFFER_SIZE"
    by blast
  have pre: "(if offset s = BUFFER_SIZE then flush s else Returned s) = Returned ?s1"
    using b by (simp add: flush_def)
  show ?case
  proof (cases "buf_writeUInt8 b1 (parseInt2 byte) (offset ?s1)")
    case (Inl e)
    then have "write_complete (byte # rest) s = Threw e ?s1"
      using b1 by (simp only: write_complete.simps Let_def pre and_then.simps option.case sum.case)
    then show ?thesis using b1 by (simp add: buffer_ok_def)
  next
    case (Inr r)
    then obtain b2 k where r: "r = (b2, k)" and b2: "length b2 = BUFFER_SIZE"
      using b1 by (cases r) (auto simp: buf_writeUInt8_def split: if_splits)
    have "write_complete (byte # rest) s =
            write_complete rest (?s1\<lparr>buffer := Some b2, offset := offset ?s1 + 1\<rparr>)"
      using b1 Inr r
      by (simp only: write_complete.simps Let_def pre and_then.simps option.case sum.case prod.case)
    moreover have "buffer_ok (?s1\<lparr>buffer := Some b2, offset := offset ?s1 + 1\<rparr>)"
      using b2 by (simp add: buffer_ok_def)
    ultimately show ?thesis using Cons.IH by simp
  qed
qed

lemma buffer_ok_bits [simp]: "buffer_ok (s\<lparr>bits := p\<rparr>) = buffer_ok s"
  by (simp add: buffer_ok_def)

lemma writeStringBits_buffer_ok:
  assumes "buffer_ok s"
  shows "buffer_ok (state_of (writeStringBits value s))"
proof (cases "not_bits value \<or> js_match (bits s @ value) = None")
  case True
  with assms show ?thesis by (auto simp: writeStringBits_def)
next
  case False
  then obtain bytes where jm: "js_match (bits s @ value) = Some bytes" by auto
  from write_complete_buffer_ok [OF assms, of "filter (\<lambda>byte. length byte = 8) bytes"]
  show ?thesis using False jm
    by (cases "write_complete (filter (\<lambda>byte. length byte = 8) bytes) s")
       (simp_all add: writeStringBits_def)
qed

lemma align_buffer_ok:
  assumes "buffer_ok s"
  shows "buffer_ok (state_of (align s))"
proof (cases "bits s = []")
  case True
  with assms show ?thesis by (simp add: align_def)
next
  case False
  show ?thesis
  proof (cases "js_repeat CHR ''0'' (8 - int (length (bits s)))")
    case (Inl e)
    with False assms show ?thesis by (simp add: align_def)
  next
    case (Inr padding)
    from writeStringBits_buffer_ok [OF assms, of padding] Inr False show ?thesis
      by (cases "writeStringBits padding s") (simp_all add: align_def)
  qed
qed

text \<open>
  Claim C10. In a state with fewer than 8 pending bits, a cursor of at most 1024 and the
  buffer of 1024 bytes in place, when the guard of an aligned write of \<open>n\<close> bytes,
  \<open>0 \<le> n \<le> 1024\<close>, returns, the cursor plus \<open>n\<close> is at most 1024 and the buffer still
  has its 1024 bytes: a writer that stores \<open>n\<close> bytes at the cursor passes its bounds
  check and stores them.
\<close>

theorem guard_leaves_room:
  assumes "length (bits s) < 8" and "offset s \<le> BUFFER_SIZE"
    and "buffer s = Some b" and "length b = BUFFER_SIZE"
    and "0 \<le> n" and "n \<le> 1024" and "int (length bs) = n"
    and "beforeWriteAligned n s = Returned s'"
  shows "int (offset s') + n \<le> 1024 \<and>
         (\<exists>b'. buffer s' = Some b' \<and> length b' = BUFFER_SIZE \<and>
               store_bytes bs b' (offset s') =
                 Inr (take (offset s') b' @ bs @ drop (offset s' + length bs) b',
                      offset s' + length bs))"
proof -
  have ok: "buffer_ok s" using assms(3,4) by (simp add: buffer_ok_def)
  from assms(8) obtain s1 where s1: "align s = Returned s1"
    and g: "(if int (offset s1) + n \<ge> int BUFFER_SIZE then flush s1 else Returned s1) = Returned s'"
    by (cases "align s") (auto simp: beforeWriteAligned_def split: if_splits)
  from align_buffer_ok [OF ok] s1 have ok1: "buffer_ok s1" by simp
  then obtain b1 where b1: "buffer s1 = Some b1" "length b1 = BUFFER_SIZE"
    by (auto simp: buffer_ok_def split: option.splits)
  have room: "int (offset s') + n \<le> 1024"
    using g b1 assms(6) by (auto simp: flush_def BUFFER_SIZE_def split: if_splits)
  have "buffer_ok s'"
    using g ok1 flush_buffer_ok [OF ok1] by (auto split: if_splits)
  then obtain b' where b': "buffer s' = Some b'" "length b' = BUFFER_SIZE"
    by (auto simp: buffer_ok_def split: option.splits)
  have "offset s' + length bs \<le> length b'"
    using room assms(7) b'(2) by (simp add: BUFFER_SIZE_def)
  then have "store_bytes bs b' (offset s') =
      Inr (take (offset s') b' @ bs @ drop (offset s' + length bs) b', offset s' + length bs)"
    by (simp add: store_bytes_def)
  with room b' show ?thesis by simp
qed

theorem guard_leaves_room_witness:
  "length (bits \<lparr>bits = [], buffer = Some (replicate BUFFER_SIZE 0), offset = 1022,
                 emitted = []\<rparr>) < 8 \<and>
   offset \<lparr>bits = [], buffer = Some (replicate BUFFER_SIZE 0), offset = 1022,
           emitted = []\<rparr> \<le> BUFFER_SIZE \<and>
   length (replicate BUFFER_SIZE (0 :: u8)) = BUFFER_SIZE \<and>
   (0 :: int) \<le> 4 \<and> (4 :: int) \<le> 1024 \<and> int (length [1, 2, 3, 4 :: u8]) = 4 \<and>
   beforeWriteAligned 4
     \<lparr>bits = [], buffer = Some (replicate BUFFER_SIZE 0), offset = 1022, emitted = []\<rparr> =
     Returned \<lparr>bits = [], buffer = Some (replicate BUFFER_SIZE 0), offset = 0,
               emitted = [Data (replicate 1022 0)]\<rparr> \<and>
   store_bytes [1, 2, 3, 4] (replicate BUFFER_SIZE 0) 0 =
     Inr ([1, 2, 3, 4] @ replicate 1020 0, 4)"
proof -
  let ?s = "\<lparr>bits = [], buffer = Some (replicate BUFFER_SIZE (0 :: u8)), offset = 1022,
             emitted = []\<rparr>"
  let ?s' = "\<lparr>bits = [], buffer = Some (replicate BUFFER_SIZE (0 :: u8)), offset = 0,
              emitted = [Data (replicate 1022 0)]\<rparr>"
  have h1: "length (bits ?s) < 8" by simp
  have h2: "offset ?s \<le> BUFFER_SIZE" by (simp add: BUFFER_SIZE_def)
  have h3: "buffer ?s = Some (replicate BUFFER_SIZE 0)" by simp
  have h4: "length (replicate BUFFER_SIZE (0 :: u8)) = BUFFER_SIZE" by simp
  have h5: "(0 :: int) \<le> 4" by simp
  have h6: "(4 :: int) \<le> 1024" by simp
  have h7: "int (length [1, 2, 3, 4 :: u8]) = 4" by simp
  have h8: "beforeWriteAligned 4 ?s = Returned ?s'"
    by (simp add: beforeWriteAligned_def align_def flush_def BUFFER_SIZE_def)
  show ?thesis
    using h2 h8 guard_leaves_room [OF h1 h2 h3 h4 h5 h6 h7 h8]
    by (simp add: BUFFER_SIZE_def)
qed

subsection \<open>The guard of the aligned writes\<close>

text \<open>
  Claim C6. An aligned write of \<open>n \<le> 1024\<close> bytes first aligns. With \<open>s1\<close> the state
  after the alignment, it flushes exactly when the cursor of \<open>s1\<close> plus \<open>n\<close> reaches
  1024: the bytes before the cursor are emitted, and the codec is called on a new
  buffer of zeros at index 0. Otherwise nothing is emitted and the codec is called on
  the buffer of \<open>s1\<close> at its cursor. What the codec stores is the buffer afterwards, and
  the number it returns is the new cursor (for \<open>write\<close>, is added to the cursor); when
  the codec throws, the state is the one it was called in.
\<close>

theorem aligned_write_flushes_when_full:
  assumes "aligned_length c = Some n" and "n \<le> 1024" and "codec_of c = Some wr"
    and "align s = Returned s1" and "buffer s1 = Some b1"
  shows "exec c s =
           (let full = (int (offset s1) + n \<ge> 1024);
                b2 = (if full then replicate BUFFER_SIZE 0 else b1);
                o2 = (if full then 0 else offset s1);
                out = (if full then emitted s1 @ [Data (take (offset s1) b1)] else emitted s1)
            in case wr b2 o2 of
                 Inl e \<Rightarrow>
                   Threw e \<lparr>bits = [], buffer = Some b2, offset = o2, emitted = out\<rparr>
               | Inr (b', r) \<Rightarrow>
                   Returned \<lparr>bits = [], buffer = Some b',
                             offset = (case c of Write _ _ \<Rightarrow> o2 + r | _ \<Rightarrow> r),
                             emitted = out\<rparr>)"
proof -
  have e: "bits s1 = []" using assms(4) by (rule align_returned_bits)
  show ?thesis
    using assms e
    by (cases c)
       (auto simp add: write_op_def
          writeDoubleBE_def writeDoubleLE_def writeFloatBE_def writeFloatLE_def writeInt8_def
          writeInt16BE_def writeInt16LE_def writeInt32BE_def writeInt32LE_def writeIntBE_def
          writeIntLE_def writeUInt8_def writeUInt16BE_def writeUInt16LE_def writeUInt32BE_def
          writeUInt32LE_def writeUIntBE_def writeUIntLE_def
          beforeWriteAligned_def flush_def assign_offset_def add_offset_def BUFFER_SIZE_def
          Let_def split: sum.splits)
qed

theorem aligned_write_flushes_when_full_witness:
  "aligned_length (WriteInt32BE (store_bytes [1, 2, 3, 4])) = Some 4 \<and> (4 :: int) \<le> 1024 \<and>
   codec_of (WriteInt32BE (store_bytes [1, 2, 3, 4])) = Some (store_bytes [1, 2, 3, 4]) \<and>
   align \<lparr>bits = [], buffer = Some (replicate BUFFER_SIZE 7), offset = 1022, emitted = []\<rparr> =
     Returned \<lparr>bits = [], buffer = Some (replicate BUFFER_SIZE 7), offset = 1022, emitted = []\<rparr> \<and>
   exec (WriteInt32BE (store_bytes [1, 2, 3, 4]))
     \<lparr>bits = [], buffer = Some (replicate BUFFER_SIZE 7), offset = 1022, emitted = []\<rparr> =
     Returned \<lparr>bits = [], buffer = Some ([1, 2, 3, 4] @ replicate 1020 0), offset = 4,
               emitted = [Data (replicate 1022 7)]\<rparr>"
proof -
  let ?s = "\<lparr>bits = [], buffer = Some (replicate BUFFER_SIZE (7 :: u8)), offset = 1022,
             emitted = []\<rparr>"
  have h1: "aligned_length (WriteInt32BE (store_bytes [1, 2, 3, 4])) = Some 4" by simp
  have h2: "(4 :: int) \<le> 1024" by simp
  have h3: "codec_of (WriteInt32BE (store_bytes [1, 2, 3, 4])) = Some (store_bytes [1, 2, 3, 4])"
    by simp
  have h4: "align ?s = Returned ?s" by (simp add: align_def)
  have h5: "buffer ?s = Some (replicate BUFFER_SIZE 7)" by simp
  show ?thesis
    using h4 aligned_write_flushes_when_full [OF h1 h2 h3 h4 h5]
    by (simp add: store_bytes_def BUFFER_SIZE_def)
qed

text \<open>An aligned write that has room writes where the cursor is, and emits nothing.\<close>

lemma aligned_write_in_place:
  "exec (WriteInt32BE (store_bytes [1, 2, 3, 4]))
     \<lparr>bits = [], buffer = Some (replicate BUFFER_SIZE 7), offset = 1019, emitted = []\<rparr> =
     Returned \<lparr>bits = [],
               buffer = Some (replicate 1019 7 @ [1, 2, 3, 4] @ replicate 1 7),
               offset = 1023, emitted = []\<rparr>"
  by (simp add: writeInt32BE_def beforeWriteAligned_def align_def assign_offset_def
      store_bytes_def BUFFER_SIZE_def)

text \<open>So does \<open>write\<close>, which adds the number of bytes stored to the cursor.\<close>

lemma write_in_place:
  "exec (Write 3 (store_string [1, 2, 3]))
     \<lparr>bits = [], buffer = Some (replicate BUFFER_SIZE 7), offset = 1019, emitted = []\<rparr> =
     Returned \<lparr>bits = [],
               buffer = Some (replicate 1019 7 @ [1, 2, 3] @ replicate 2 7),
               offset = 1022, emitted = []\<rparr>"
  by (simp add: write_op_def beforeWriteAligned_def align_def add_offset_def
      store_string_def BUFFER_SIZE_def)

subsection \<open>end\<close>

text \<open>What \<open>end\<close> leaves and emits on a well-formed writer.\<close>

lemma end_op_result:
  assumes "well_formed s" "buffer s = Some b"
  shows "end_op s = Returned
           \<lparr>bits = [], buffer = None, offset = 0,
            emitted = emitted s @
              (if bits s = [] then [Data (take (offset s) b)]
               else if offset s = BUFFER_SIZE
               then [Data b, Data [byte_of (bits s @ replicate (8 - length (bits s)) CHR ''0'')]]
               else [Data (take (offset s) b @
                           [byte_of (bits s @ replicate (8 - length (bits s)) CHR ''0'')])]) @
              [Finish]\<rparr>"
proof (cases "bits s = []")
  case True
  then show ?thesis
    using assms(2) by (simp add: end_op_def align_def flush_def)
next
  case False
  from assms have lb: "length b = BUFFER_SIZE" and off: "offset s \<le> BUFFER_SIZE"
    by (simp_all add: well_formed_def)
  show ?thesis
  proof (cases "offset s = BUFFER_SIZE")
    case True
    with False align_result [OF assms False] show ?thesis
      by (simp add: end_op_def flush_def take_Suc_update BUFFER_SIZE_def)
  next
    case ne: False
    with off have "offset s < length b" using lb by simp
    with False ne align_result [OF assms False] show ?thesis
      by (simp add: end_op_def flush_def take_Suc_update)
  qed
qed

text \<open>
  Claim C8, amended. On a well-formed writer that has not ended, \<open>end\<close> returns with
  no pending bits, and what it emits ends with exactly one final chunk followed by
  exactly one \<open>Finish\<close>. The final chunk holds the bytes of the buffer before the
  cursor, followed by the byte of the pending bits padded with zeros when bits are
  pending; it is empty when nothing is pending and the cursor is 0, as on a writer
  that never wrote a bit. Before the final chunk \<open>end\<close> emits one more chunk, the full
  buffer, exactly when bits are pending and the cursor has reached 1024 (the final
  chunk is then the padded byte alone); otherwise it emits nothing else.
\<close>

theorem end_emits_final_chunk:
  assumes "well_formed s" and "buffer s = Some b"
  shows "(let padding = replicate (8 - length (bits s)) CHR ''0'';
              byte = byte_of (bits s @ padding);
              full = (bits s \<noteq> [] \<and> offset s = BUFFER_SIZE);
              chunk = (if bits s = [] then take (offset s) b
                       else if full then [byte]
                       else take (offset s) b @ [byte])
          in end_op s =
               Returned \<lparr>bits = [], buffer = None, offset = 0,
                         emitted = emitted s @ (if full then [Data b] else []) @
                                   [Data chunk, Finish]\<rparr> \<and>
             (bits s \<noteq> [] \<longrightarrow> byte_bits byte = bits s @ padding) \<and>
             (bits s = [] \<and> offset s = 0 \<longrightarrow> chunk = []))"
proof -
  let ?padding = "replicate (8 - length (bits s)) CHR ''0''"
  from assms(1) have "bit_string (bits s @ ?padding)"
    and "bits s \<noteq> [] \<longrightarrow> length (bits s @ ?padding) = 8"
    by (simp_all add: well_formed_def pending_ok_def bit_string_append bit_string_replicate_0)
  then have "bits s \<noteq> [] \<longrightarrow>
             byte_bits (byte_of (bits s @ ?padding)) = bits s @ ?padding"
    by (blast intro: byte_bits_byte_of)
  with end_op_result [OF assms] show ?thesis
    by (simp add: Let_def)
qed

theorem end_emits_final_chunk_witness:
  "well_formed new_BitStream \<and>
   buffer new_BitStream = Some (replicate BUFFER_SIZE 0) \<and>
   end_op new_BitStream =
     Returned \<lparr>bits = [], buffer = None, offset = 0, emitted = [Data [], Finish]\<rparr> \<and>
   well_formed \<lparr>bits = ''0011'', buffer = Some (replicate BUFFER_SIZE 7), offset = 2,
                 emitted = [Data [9]]\<rparr> \<and>
   end_op \<lparr>bits = ''0011'', buffer = Some (replicate BUFFER_SIZE 7), offset = 2,
           emitted = [Data [9]]\<rparr> =
     Returned \<lparr>bits = [], buffer = None, offset = 0,
               emitted = [Data [9], Data [7, 7, 0x30], Finish]\<rparr>"
proof -
  let ?s = "\<lparr>bits = ''0011'', buffer = Some (replicate BUFFER_SIZE (7 :: u8)), offset = 2,
             emitted = [Data [9]]\<rparr>"
  have w0: "well_formed new_BitStream"
    by (simp add: well_formed_def pending_ok_def bit_string_def new_BitStream_def)
  have b0: "buffer new_BitStream = Some (replicate BUFFER_SIZE 0)"
    by (simp add: new_BitStream_def)
  have e0: "bits new_BitStream = []" "emitted new_BitStream = []" "offset new_BitStream = 0"
    by (simp_all add: new_BitStream_def)
  have w: "well_formed ?s"
    by (simp add: well_formed_def pending_ok_def bit_string_def is_bit_char_def BUFFER_SIZE_def)
  have b: "buffer ?s = Some (replicate BUFFER_SIZE 7)" by simp
  have r: "replicate 4 CHR ''0'' = ''0000''" by code_simp
  have t: "replicate 2 (7 :: u8) = [7, 7]"
    by (simp add: numeral_2_eq_2)
  have new: "end_op new_BitStream =
      Returned \<lparr>bits = [], buffer = None, offset = 0, emitted = [Data [], Finish]\<rparr>"
    using end_emits_final_chunk [OF w0 b0] by (simp add: e0 Let_def)
  have pend: "end_op ?s =
      Returned \<lparr>bits = [], buffer = None, offset = 0,
                emitted = [Data [9], Data [7, 7, 0x30], Finish]\<rparr>"
    using end_emits_final_chunk [OF w b]
    by (simp add: Let_def r t byte_of_0011_padded BUFFER_SIZE_def)
  show ?thesis
    using w0 b0 new w pend by simp
qed

text \<open>A new writer that is ended at once emits the empty chunk and \<open>Finish\<close>.\<close>

lemma end_new:
  "end_op new_BitStream =
     Returned \<lparr>bits = [], buffer = None, offset = 0, emitted = [Data [], Finish]\<rparr>"
  by (simp add: end_op_def align_def flush_def new_BitStream_def)

subsection \<open>A full buffer with a bit pending\<close>

text \<open>
  8192 zeros on a new writer fill the buffer to the last byte without a flush: the
  flush of line 125 waits for the next byte.
\<close>

lemma match_all_zeros:
  "match_all (replicate (8 * k) CHR ''0'') = replicate k (replicate 8 CHR ''0'')"
proof (induction k)
  case 0
  show ?case by (simp add: match_all_Nil)
next
  case (Suc k)
  have "match_all (replicate (8 * Suc k) CHR ''0'') =
          take 8 (replicate (8 * Suc k) CHR ''0'') #
          match_all (drop 8 (replicate (8 * Suc k) CHR ''0''))"
    by (rule match_all_long) (simp_all add: bit_string_replicate_0)
  with Suc show ?case by simp
qed

lemma byte_of_zeros: "byte_of (replicate 8 CHR ''0'') = 0"
proof -
  have "replicate 8 CHR ''0'' = ''00000000''" by code_simp
  then show ?thesis by (simp add: byte_of_def parseInt2_def digit_val_def)
qed

lemma update_replicate_same: "(replicate n x)[i := x] = replicate n x"
  by (induction n arbitrary: i) (auto split: nat.splits)

lemma write_complete_zeros:
  assumes "buffer s = Some (replicate BUFFER_SIZE 0)" "offset s + k \<le> BUFFER_SIZE"
  shows "write_complete (replicate k (replicate 8 CHR ''0'')) s =
           Returned (s\<lparr>offset := offset s + k\<rparr>)"
  using assms
proof (induction k arbitrary: s)
  case 0
  show ?case by simp
next
  case (Suc k)
  let ?s1 = "s\<lparr>buffer := Some ((replicate BUFFER_SIZE 0)[offset s := byte_of (replicate 8 CHR ''0'')]),
               offset := offset s + 1\<rparr>"
  have l: "length (replicate BUFFER_SIZE (0 :: u8)) = BUFFER_SIZE" by simp
  have o: "offset s \<le> BUFFER_SIZE" "offset s \<noteq> BUFFER_SIZE" using Suc.prems(2) by simp_all
  have step: "write_complete (replicate 8 CHR ''0'' # replicate k (replicate 8 CHR ''0'')) s =
          write_complete (replicate k (replicate 8 CHR ''0'')) ?s1"
    using write_complete_step [OF Suc.prems(1) l o(1), of "replicate 8 CHR ''0''"] o(2)
    by simp
  have "?s1 = s\<lparr>buffer := buffer s, offset := offset s + 1\<rparr>"
    by (simp add: Suc.prems(1) byte_of_zeros update_replicate_same)
  then have s1: "?s1 = s\<lparr>offset := offset s + 1\<rparr>"
    by simp
  have "write_complete (replicate k (replicate 8 CHR ''0'')) (s\<lparr>offset := offset s + 1\<rparr>) =
          Returned (s\<lparr>offset := offset s + 1, offset := offset s + 1 + k\<rparr>)"
    using Suc.IH [of "s\<lparr>offset := offset s + 1\<rparr>"] Suc.prems by simp
  with step s1 show ?case by simp
qed

lemma fill_buffer:
  "writeStringBits (replicate 8192 CHR ''0'') new_BitStream =
     Returned \<lparr>bits = [], buffer = Some (replicate BUFFER_SIZE 0), offset = 1024, emitted = []\<rparr>"
proof -
  have m: "match_all (replicate 8192 CHR ''0'') = replicate 1024 (replicate 8 CHR ''0'')"
    using match_all_zeros [of 1024] by simp
  have nb: "\<not> not_bits (replicate 8192 CHR ''0'')"
    by (simp add: not_bits_iff bit_string_replicate_0)
  have wc: "write_complete (replicate 1024 (replicate 8 CHR ''0''))
            \<lparr>bits = [], buffer = Some (replicate BUFFER_SIZE 0), offset = 0, emitted = []\<rparr> =
          Returned \<lparr>bits = [], buffer = Some (replicate BUFFER_SIZE 0), offset = 1024,
                    emitted = []\<rparr>"
    using write_complete_zeros
      [of "\<lparr>bits = [], buffer = Some (replicate BUFFER_SIZE 0), offset = 0, emitted = []\<rparr>" 1024]
    by (simp add: BUFFER_SIZE_def)
  have r: "replicate 1024 (replicate 8 CHR ''0'') \<noteq> []" by simp
  have jm: "js_match (replicate 8192 CHR ''0'') = Some (replicate 1024 (replicate 8 CHR ''0''))"
    unfolding js_match_def m using r by (simp split: list.splits)
  show ?thesis
    by (simp add: writeStringBits_def nb jm wc new_BitStream_def)
qed

lemma full_with_one_bit:
  "run [WriteStringBits (replicate 8192 CHR ''0''), WriteStringBits ''1''] new_BitStream =
     Returned \<lparr>bits = ''1'', buffer = Some (replicate BUFFER_SIZE 0), offset = 1024,
               emitted = []\<rparr>"
  by (simp add: fill_buffer)
     (simp add: writeStringBits_def not_bits_def js_match_def is_bit_char_def
        line_terminator_def match_all.simps)

lemma byte_of_1_padded: "byte_of (''1'' @ replicate (8 - length ''1'') CHR ''0'') = 0x80"
proof -
  have "replicate 7 CHR ''0'' = ''0000000''" by code_simp
  then show ?thesis by (simp add: byte_of_def parseInt2_def digit_val_def)
qed

lemma end_full_with_one_bit:
  "end_op \<lparr>bits = ''1'', buffer = Some (replicate BUFFER_SIZE 0), offset = 1024, emitted = []\<rparr> =
     Returned \<lparr>bits = [], buffer = None, offset = 0,
               emitted = [Data (replicate BUFFER_SIZE 0), Data [0x80], Finish]\<rparr>"
proof -
  let ?s = "\<lparr>bits = ''1'', buffer = Some (replicate BUFFER_SIZE (0 :: u8)), offset = 1024,
             emitted = []\<rparr>"
  have w: "well_formed ?s"
    by (simp add: well_formed_def pending_ok_def bit_string_def is_bit_char_def BUFFER_SIZE_def)
  have b: "buffer ?s = Some (replicate BUFFER_SIZE 0)" by simp
  have o: "offset ?s = BUFFER_SIZE" by (simp add: BUFFER_SIZE_def)
  have p: "byte_of (bits ?s @ replicate (8 - length (bits ?s)) CHR ''0'') = 0x80"
    using byte_of_1_padded by simp
  show ?thesis
    using end_op_result [OF w b] unfolding p o by simp
qed

text \<open>
  Claim C8 as it is written fails on a writer whose buffer is full while a bit is
  pending. After \<open>writeStringBits\<close> of 8192 zeros and of \<open>"1"\<close> on a new writer the
  cursor is 1024 and nothing has been emitted; \<open>end\<close> then emits two chunks, the 1024
  bytes of the buffer and the byte \<open>0x80\<close>, before \<open>Finish\<close>.
\<close>

theorem end_emits_two_chunks:
  "run [WriteStringBits (replicate 8192 CHR ''0''), WriteStringBits ''1''] new_BitStream =
     Returned \<lparr>bits = ''1'', buffer = Some (replicate BUFFER_SIZE 0), offset = 1024,
               emitted = []\<rparr> \<and>
   end_op \<lparr>bits = ''1'', buffer = Some (replicate BUFFER_SIZE 0), offset = 1024, emitted = []\<rparr> =
     Returned \<lparr>bits = [], buffer = None, offset = 0,
               emitted = [Data (replicate BUFFER_SIZE 0), Data [0x80], Finish]\<rparr>"
  using full_with_one_bit end_full_with_one_bit by simp

lemma end_not_one_chunk:
  "\<not> (\<exists>chunk.
        emitted (state_of (end_op \<lparr>bits = ''1'', buffer = Some (replicate BUFFER_SIZE 0),
                                   offset = 1024, emitted = []\<rparr>)) =
        emitted \<lparr>bits = ''1'', buffer = Some (replicate BUFFER_SIZE 0), offset = 1024,
                 emitted = []\<rparr> @ [Data chunk, Finish])"
  by (simp add: end_full_with_one_bit)

subsection \<open>writeIntBits\<close>

lemma toString2_small: "n < 2 \<Longrightarrow> toString2 n = [bit_char n]"
  by (simp add: toString2.simps)

lemma toString2_large:
  "2 \<le> n \<Longrightarrow> toString2 n = toString2 (n div 2) @ [bit_char (n mod 2)]"
  by (subst toString2.simps) simp

lemma bit_char_mod2: "bit_char (n mod 2) = (if bit n 0 then CHR ''1'' else CHR ''0'')"
  by (auto simp: bit_char_def bit_0 odd_iff_mod_2_eq_one)

text \<open>The digits of \<open>toString(2)\<close>, padded with zeros to \<open>k\<close> digits, are the low \<open>k\<close> bits.\<close>

lemma toString2_padded:
  "n < 2 ^ k \<Longrightarrow> 0 < k \<Longrightarrow>
   length (toString2 n) \<le> k \<and>
   replicate (k - length (toString2 n)) CHR ''0'' @ toString2 n =
     map (\<lambda>i. if bit n i then CHR ''1'' else CHR ''0'') (rev [0..<k])"
proof (induction k arbitrary: n)
  case 0
  then show ?case by simp
next
  case (Suc k)
  show ?case
  proof (cases "n < 2")
    case True
    then have n: "n = 0 \<or> n = 1" by auto
    have "map (\<lambda>i. if bit n i then CHR ''1'' else CHR ''0'') (rev [0..<Suc k]) =
            replicate k CHR ''0'' @ [bit_char n]"
      using n by (auto simp: rev_upt_Suc comp_def bit_Suc bit_0 bit_char_def map_replicate_const
          simp del: upt_Suc)
    with True show ?thesis by (simp add: toString2_small)
  next
    case False
    then have big: "2 \<le> n" by simp
    then have k: "0 < k" using Suc.prems(1) by (cases k) auto
    have half: "n div 2 < 2 ^ k" using Suc.prems(1) by simp
    from Suc.IH [OF half k]
    have len: "length (toString2 (n div 2)) \<le> k"
      and ih: "replicate (k - length (toString2 (n div 2))) CHR ''0'' @ toString2 (n div 2) =
               map (\<lambda>i. if bit (n div 2) i then CHR ''1'' else CHR ''0'') (rev [0..<k])"
      by simp_all
    have "map (\<lambda>i. if bit n i then CHR ''1'' else CHR ''0'') (rev [0..<Suc k]) =
            map (\<lambda>i. if bit (n div 2) i then CHR ''1'' else CHR ''0'') (rev [0..<k]) @
            [bit_char (n mod 2)]"
      by (simp add: rev_upt_Suc comp_def bit_Suc bit_char_mod2 del: upt_Suc)
    with ih len show ?thesis
      by (simp add: toString2_large [OF big] Suc_diff_le)
  qed
qed

lemma toString2_long: "2 ^ k \<le> n \<Longrightarrow> k < length (toString2 n)"
proof (induction k arbitrary: n)
  case 0
  show ?case by (cases "n < 2") (simp_all add: toString2_small toString2_large)
next
  case (Suc k)
  then have big: "2 \<le> n"
    by (metis One_nat_def Suc_1 le_trans one_le_numeral one_le_power power_Suc2 mult.commute
        mult_le_mono1 nat_mult_1)
  from Suc.prems have "2 ^ k \<le> n div 2" by simp
  from Suc.IH [OF this] show ?case
    by (simp add: toString2_large [OF big])
qed

lemma to_uint32_less: "to_uint32 v < 2 ^ 32"
  by (simp add: to_uint32_def nat_less_iff)

lemma to_uint32_bit:
  "i < 32 \<Longrightarrow> bit (to_uint32 v) i \<longleftrightarrow> bit (word_of_int v :: 32 word) i"
proof -
  assume i: "i < 32"
  have "to_uint32 v = nat (take_bit 32 v)"
    by (simp only: to_uint32_def take_bit_eq_mod)
  moreover have "bit (nat (take_bit 32 v)) i \<longleftrightarrow> bit (take_bit 32 v) i"
    by (simp only: bit_nat_iff take_bit_nonnegative simp_thms)
  ultimately show ?thesis
    using i by (simp add: bit_take_bit_iff bit_word_of_int_iff)
qed

lemma low_bits_32:
  "low_bits v 32 =
     map (\<lambda>i. if bit (to_uint32 v) i then CHR ''1'' else CHR ''0'') (rev [0..<32])"
  unfolding low_bits_def by (rule map_cong) (simp_all add: to_uint32_bit)

lemma length_low_bits: "length (low_bits v k) = k"
  by (simp add: low_bits_def)

lemma bit_string_low_bits: "bit_string (low_bits v k)"
  by (auto simp: low_bits_def bit_string_def list_all_iff is_bit_char_def)

lemma low_bits_suffix:
  assumes "k \<le> 32"
  shows "drop (32 - k) (low_bits v 32) = low_bits v k"
proof -
  have "drop (32 - k) (rev [0..<32]) = rev (take k [0..<32])"
    using assms by (simp add: drop_rev del: upt_Suc)
  also have "take k [0..<32] = [0..<k]"
    using assms by (simp add: take_upt del: upt_Suc)
  finally show ?thesis
    by (simp add: low_bits_def drop_map del: upt_Suc)
qed

text \<open>The 32 digits of lines 97 and 99, for a signed 32-bit value.\<close>

lemma padded_binary:
  assumes "- (2 ^ 31) \<le> v" "v < 2 ^ 31"
  shows "js_repeat (if v < 0 then CHR ''1'' else CHR ''0'')
           (32 - int (length (toString2 (to_uint32 v)))) =
         Inr (replicate (32 - length (toString2 (to_uint32 v)))
                (if v < 0 then CHR ''1'' else CHR ''0'')) \<and>
         replicate (32 - length (toString2 (to_uint32 v)))
           (if v < 0 then CHR ''1'' else CHR ''0'') @ toString2 (to_uint32 v) =
         low_bits v 32"
proof -
  let ?n = "to_uint32 v"
  have "length (toString2 ?n) \<le> 32 \<and>
        replicate (32 - length (toString2 ?n)) CHR ''0'' @ toString2 ?n =
          map (\<lambda>i. if bit ?n i then CHR ''1'' else CHR ''0'') (rev [0..<32])"
    by (rule toString2_padded [OF to_uint32_less]) simp
  then have len: "length (toString2 ?n) \<le> 32"
    and pad: "replicate (32 - length (toString2 ?n)) CHR ''0'' @ toString2 ?n = low_bits v 32"
    by (simp_all only: low_bits_32)
  have rep: "js_repeat c (32 - int (length (toString2 ?n))) =
               Inr (replicate (32 - length (toString2 ?n)) c)" for c
  proof -
    have "\<not> 32 - int (length (toString2 ?n)) < 0" using len by simp
    moreover have "nat (32 - int (length (toString2 ?n))) = 32 - length (toString2 ?n)"
      by simp
    ultimately show ?thesis by (simp only: js_repeat_def if_False)
  qed
  show ?thesis
  proof (cases "v < 0")
    case False
    with rep pad show ?thesis by simp
  next
    case True
    have "(v + 2 ^ 32) mod 2 ^ 32 = v + 2 ^ 32"
      using assms(1) True by (intro mod_pos_pos_trivial) simp_all
    then have "v mod 2 ^ 32 = v + 2 ^ 32"
      by (metis mod_add_self2)
    then have "?n = nat (v + 2 ^ 32)" by (simp only: to_uint32_def)
    then have "2 ^ 31 \<le> ?n" using assms(1) by simp
    from toString2_long [OF this] len have "length (toString2 ?n) = 32" by simp
    with pad True show ?thesis by (simp add: js_repeat_def)
  qed
qed

lemma js_substr_suffix:
  assumes "1 \<le> n" "n \<le> int (length str)"
  shows "js_substr str (- n) = drop (length str - nat n) str"
  using assms by (simp add: js_substr_def nat_diff_distrib')

text \<open>
  For a signed 32-bit value and a bit length from 1 to 32, \<open>writeIntBits\<close> passes the
  low bits of the two's complement form, most significant first, to \<open>writeStringBits\<close>.
\<close>

lemma writeIntBits_low_bits:
  assumes "- (2 ^ 31) \<le> v" "v < 2 ^ 31" "1 \<le> n" "n \<le> 32"
  shows "writeIntBits v n s = writeStringBits (low_bits v (nat n)) s"
proof -
  note pb = padded_binary [OF assms(1,2)]
  have "js_substr (low_bits v 32) (- n) = drop (32 - nat n) (low_bits v 32)"
    using js_substr_suffix [of n "low_bits v 32"] assms(3,4) by (simp add: length_low_bits)
  also have "\<dots> = low_bits v (nat n)"
    using assms(4) by (simp add: low_bits_suffix)
  finally have sub: "js_substr (low_bits v 32) (- n) = low_bits v (nat n)" .
  show ?thesis
    using assms(3,4) pb sub by (simp add: writeIntBits_def Let_def)
qed

text \<open>On a well-formed writer these bits, \<open>n\<close> of them, are appended to the stream.\<close>

lemma writeIntBits_appends:
  assumes "well_formed s" "- (2 ^ 31) \<le> v" "v < 2 ^ 31" "1 \<le> n" "n \<le> 32"
  shows "\<exists>s'. writeIntBits v n s = Returned s' \<and> well_formed s' \<and>
           stream_bits s' = stream_bits s @ low_bits v (nat n) \<and>
           length (low_bits v (nat n)) = nat n"
proof -
  have "bits s @ low_bits v (nat n) \<noteq> []"
    using assms(4) length_low_bits [of v "nat n"] by auto
  from writeStringBits_ok [OF assms(1) bit_string_low_bits this]
  show ?thesis
    by (auto simp: writeIntBits_low_bits [OF assms(2-5)] length_low_bits)
qed

text \<open>
  Claim C1. With bit length 0 the claim asks for no bits at all. \<open>substr(-0)\<close> is
  \<open>substr(0)\<close>, the whole string: on a new writer \<open>writeIntBits(5, 0)\<close> stores the four
  bytes \<open>00 00 00 05\<close>, 32 bits.
\<close>

theorem writeIntBits_zero_length:
  "writeIntBits 5 0 new_BitStream =
     Returned \<lparr>bits = [],
               buffer = Some ((replicate BUFFER_SIZE 0)[3 := 5]),
               offset = 4, emitted = []\<rparr>"
proof -
  have t: "toString2 (to_uint32 5) = ''101''"
    by (simp add: to_uint32_def toString2.simps bit_char_def)
  have r: "replicate 29 CHR ''0'' = ''00000000000000000000000000000''" by code_simp
  have m: "match_all ''00000000000000000000000000000101'' =
             [''00000000'', ''00000000'', ''00000000'', ''00000101'']"
    by (simp add: match_all.simps line_terminator_def Let_def)
  show ?thesis
    by (simp add: writeIntBits_def t r js_repeat_def js_substr_def writeStringBits_def
        not_bits_def is_bit_char_def js_match_def m new_BitStream_def parseInt2_def
        digit_val_def buf_writeUInt8_def BUFFER_SIZE_def update_replicate_same
        numeral_3_eq_3)
qed

subsection \<open>Well-formed writers\<close>

lemma well_formed_new: "well_formed new_BitStream"
  by (simp add: well_formed_def pending_ok_def bit_string_def new_BitStream_def)

lemma writeStringBits_well_formed:
  assumes "well_formed s"
  shows "well_formed (state_of (writeStringBits value s))"
proof (cases "bit_string value \<and> bits s @ value \<noteq> []")
  case True
  with writeStringBits_ok [OF assms, of "value"] show ?thesis by auto
next
  case False
  then have "writeStringBits value s = Threw (InvalidFormat value) s \<or>
             writeStringBits value s = Threw TypeError s"
    by (auto simp: writeStringBits_def not_bits_iff js_match_def match_all_Nil)
  with assms show ?thesis by auto
qed

lemma flush_well_formed: "well_formed s \<Longrightarrow> well_formed (state_of (flush s))"
  by (simp add: flush_def well_formed_def pending_ok_def split: option.splits)

lemma align_well_formed:
  assumes "well_formed s"
  shows "well_formed (state_of (align s))"
proof (cases "bits s = []")
  case True
  with assms show ?thesis by (simp add: align_def)
next
  case False
  from assms obtain b where b: "buffer s = Some b" "length b = BUFFER_SIZE"
    and off: "offset s \<le> BUFFER_SIZE"
    by (auto simp: well_formed_def split: option.splits)
  from align_result [OF assms b(1) False] b(2) off show ?thesis
    by (auto simp: well_formed_def pending_ok_def bit_string_def BUFFER_SIZE_def)
qed

text \<open>
  The calls that go through no codec keep a writer well-formed, whether they return
  or throw; \<open>end\<close> is left out, since it takes the buffer away.
\<close>

lemma well_formed_preserved:
  assumes "well_formed s" "aligned_length c = None" "c \<noteq> End"
  shows "well_formed (state_of (exec c s))"
  using assms
  by (cases c)
     (simp_all add: align_well_formed flush_well_formed writeStringBits_well_formed
        writeArrayBits_def writeIntBits_def Let_def split: sum.splits)

lemma beforeWriteAligned_well_formed:
  assumes "well_formed s"
  shows "well_formed (state_of (beforeWriteAligned n s))"
  using assms align_well_formed [OF assms]
  by (cases "align s") (auto simp: beforeWriteAligned_def flush_well_formed)

text \<open>
  An aligned write through a codec that keeps to the contract of Node's writers, storing
  as many bytes as the guard was told, keeps a writer well-formed too.
\<close>

lemma aligned_store_well_formed:
  assumes "well_formed s" "int (length bs) = n"
  shows "well_formed (state_of (and_then (beforeWriteAligned n s) (assign_offset (store_bytes bs))))"
    and "well_formed (state_of (and_then (beforeWriteAligned n s) (add_offset (store_string bs))))"
proof -
  have wf1: "well_formed (state_of (beforeWriteAligned n s))"
    using assms(1) by (rule beforeWriteAligned_well_formed)
  have both:
    "well_formed (state_of (and_then (beforeWriteAligned n s) (assign_offset (store_bytes bs)))) \<and>
     well_formed (state_of (and_then (beforeWriteAligned n s) (add_offset (store_string bs))))"
  proof (cases "beforeWriteAligned n s")
    case (Threw e s1)
    with wf1 show ?thesis by simp
  next
    case (Returned s1)
    with wf1 have w: "well_formed s1" by simp
    then obtain b where b: "buffer s1 = Some b" "length b = BUFFER_SIZE"
      and p: "pending_ok s1"
      by (auto simp: well_formed_def split: option.splits)
    have n': "n \<le> 1024"
      using Returned by (auto simp: beforeWriteAligned_def BUFFER_SIZE_def split: if_splits)
    have "int (offset s1) + n \<le> 1024"
    proof -
      from Returned obtain s0 where s0: "align s = Returned s0"
        and g: "(if int (offset s0) + n \<ge> int BUFFER_SIZE then flush s0 else Returned s0) =
                Returned s1"
        by (cases "align s") (auto simp: beforeWriteAligned_def split: if_splits)
      show ?thesis
        using g n' by (auto simp: flush_def BUFFER_SIZE_def split: if_splits option.splits)
    qed
    then have room: "offset s1 + length bs \<le> length b"
      using assms(2) b(2) by (simp add: BUFFER_SIZE_def)
    with Returned b p show ?thesis
      by (simp add: assign_offset_def add_offset_def store_bytes_def store_string_def
          well_formed_def pending_ok_def)
  qed
  from both show
    "well_formed (state_of (and_then (beforeWriteAligned n s) (assign_offset (store_bytes bs))))"
    and "well_formed (state_of (and_then (beforeWriteAligned n s) (add_offset (store_string bs))))"
    by simp_all
qed

subsection \<open>The examples of the documentation\<close>

lemma writeIntBits_3_8:
  "writeIntBits 3 8 new_BitStream =
     Returned \<lparr>bits = [], buffer = Some ((replicate BUFFER_SIZE 0)[0 := 0x03]), offset = 1,
               emitted = []\<rparr>"
proof -
  have t: "toString2 (to_uint32 3) = ''11''"
    by (simp add: to_uint32_def toString2.simps bit_char_def)
  have r: "replicate 30 CHR ''0'' = ''000000000000000000000000000000''" by code_simp
  show ?thesis
    by (simp add: writeIntBits_def t r js_repeat_def js_substr_def writeStringBits_def
        not_bits_def is_bit_char_def js_match_def match_all.simps line_terminator_def Let_def
        new_BitStream_def parseInt2_def digit_val_def buf_writeUInt8_def BUFFER_SIZE_def)
qed

lemma writeIntBits_minus_3_32:
  "writeIntBits (- 3) 32 new_BitStream =
     Returned \<lparr>bits = [],
               buffer = Some ((replicate BUFFER_SIZE 0)[0 := 0xFF, 1 := 0xFF, 2 := 0xFF, 3 := 0xFD]),
               offset = 4, emitted = []\<rparr>"
proof -
  have t: "toString2 (to_uint32 (- 3)) = ''11111111111111111111111111111101''"
    by (simp add: to_uint32_def toString2.simps bit_char_def)
  show ?thesis
    by (simp add: writeIntBits_def t js_repeat_def js_substr_def writeStringBits_def
        not_bits_def is_bit_char_def js_match_def match_all.simps line_terminator_def Let_def
        new_BitStream_def parseInt2_def digit_val_def buf_writeUInt8_def BUFFER_SIZE_def
        numeral_2_eq_2 numeral_3_eq_3)
qed

lemma writeArrayBits_example:
  "writeArrayBits [''0'', ''0'', ''0'', ''1'', ''1'', ''0'', ''0'', ''0''] new_BitStream =
     Returned \<lparr>bits = [], buffer = Some ((replicate BUFFER_SIZE 0)[0 := 0x18]), offset = 1,
               emitted = []\<rparr>"
  by (simp add: writeArrayBits_def join_empty_def writeStringBits_def not_bits_def
      is_bit_char_def js_match_def match_all.simps line_terminator_def Let_def
      new_BitStream_def parseInt2_def digit_val_def buf_writeUInt8_def BUFFER_SIZE_def)

text \<open>An element other than 0 and 1 in the array is rejected by the test of line 113.\<close>

lemma writeArrayBits_rejects_2:
  "writeArrayBits [''0'', ''2''] new_BitStream = Threw (InvalidFormat ''02'') new_BitStream"
  by (simp add: writeArrayBits_def join_empty_def writeStringBits_def not_bits_def
      is_bit_char_def)

text \<open>The empty array on a new writer is the empty string of line 117.\<close>

lemma writeArrayBits_empty:
  "writeArrayBits [] new_BitStream = Threw TypeError new_BitStream"
  by (simp add: writeArrayBits_def join_empty_def writeStringBits_def not_bits_def js_match_def
      new_BitStream_def match_all_Nil)

end
